theory Spec2Isabelle
  imports Main "HOL-Library.Monad_Syntax"
begin

section \<open>The node model (Node.h)\<close>

text \<open>
  Nodes live in a store that maps addresses to node objects; a pointer is an
  \<open>addr option\<close> (\<open>None\<close> is \<open>nullptr\<close>).  For every array of a node the model
  keeps the slots in use: \<open>keys\<close> is \<open>keys[0..numKeys)\<close>, so \<open>numKeys\<close> is
  \<open>length (keys n)\<close>, \<open>vals\<close> is \<open>values[0..numKeys)\<close> and \<open>children\<close> is
  \<open>children[0..numKeys]\<close>.  An operation returns \<open>None\<close> where the code
  dereferences a null or dangling pointer, reads or addresses a slot that is
  not in use, or does not terminate.
\<close>

type_synonym addr = nat

record ('k, 'v) node =
  isLeaf :: bool
  keys :: "'k list"
  parent :: "addr option"
  nmaxKeys :: nat
  children :: "addr list"
  vals :: "'v list"
  next_leaf :: "addr option"
  prev_leaf :: "addr option"

definition LeafNode :: "nat \<Rightarrow> ('k, 'v) node" where
  "LeafNode maxK = \<lparr>isLeaf = True, keys = [], parent = None, nmaxKeys = maxK,
     children = [], vals = [], next_leaf = None, prev_leaf = None\<rparr>"

definition InternalNode :: "nat \<Rightarrow> ('k, 'v) node" where
  "InternalNode maxK = \<lparr>isLeaf = False, keys = [], parent = None, nmaxKeys = maxK,
     children = [], vals = [], next_leaf = None, prev_leaf = None\<rparr>"

definition numKeys :: "('k, 'v) node \<Rightarrow> nat" where
  "numKeys n = length (keys n)"

definition isFull :: "('k, 'v) node \<Rightarrow> bool" where
  "isFull n = (numKeys n > nmaxKeys n)"

definition isUnderflow :: "('k, 'v) node \<Rightarrow> nat \<Rightarrow> bool" where
  "isUnderflow n minK = (numKeys n < minK)"

text \<open>The binary search of \<open>findKeyPosition\<close>, with the loop variables
  \<open>left\<close>, \<open>right\<close> (signed, as \<open>right\<close> starts at \<open>numKeys - 1\<close>) and \<open>result\<close>.\<close>

function findKeyPosition_loop :: "('k::linorder) list \<Rightarrow> 'k \<Rightarrow> int \<Rightarrow> int \<Rightarrow> nat \<Rightarrow> nat" where
  "findKeyPosition_loop ks key left right result =
     (if left \<le> right then
        (let mid = left + (right - left) div 2 in
         if ks ! nat mid = key then nat mid
         else if ks ! nat mid < key then findKeyPosition_loop ks key (mid + 1) right result
         else findKeyPosition_loop ks key left (mid - 1) (nat mid))
      else result)"
  by pat_completeness auto
termination
  by (relation "measure (\<lambda>(ks, key, left, right, result). nat (right - left + 1))") auto

definition findKeyPosition :: "('k::linorder, 'v) node \<Rightarrow> 'k \<Rightarrow> nat" where
  "findKeyPosition n key =
     findKeyPosition_loop (keys n) key 0 (int (numKeys n) - 1) (numKeys n)"

definition insert_at :: "nat \<Rightarrow> 'a \<Rightarrow> 'a list \<Rightarrow> 'a list" where
  "insert_at pos x xs = take pos xs @ x # drop pos xs"

definition remove_at :: "nat \<Rightarrow> 'a list \<Rightarrow> 'a list" where
  "remove_at pos xs = take pos xs @ drop (Suc pos) xs"

definition insertKeyAt :: "('k, 'v) node \<Rightarrow> nat \<Rightarrow> 'k \<Rightarrow> ('k, 'v) node" where
  "insertKeyAt n pos key = n\<lparr>keys := insert_at pos key (keys n)\<rparr>"

definition removeKeyAt :: "('k, 'v) node \<Rightarrow> nat \<Rightarrow> ('k, 'v) node" where
  "removeKeyAt n pos = n\<lparr>keys := remove_at pos (keys n)\<rparr>"

definition removeChildAt :: "('k, 'v) node \<Rightarrow> nat \<Rightarrow> ('k, 'v) node" where
  "removeChildAt n pos = n\<lparr>children := remove_at pos (children n)\<rparr>"

text \<open>\<open>findChildIndex\<close>: the number of leading keys that are \<open>\<le> key\<close>.\<close>

fun findChildIndex_loop :: "('k::linorder) list \<Rightarrow> 'k \<Rightarrow> nat" where
  "findChildIndex_loop [] key = 0"
| "findChildIndex_loop (x # xs) key =
     (if key \<ge> x then Suc (findChildIndex_loop xs key) else 0)"

definition findChildIndex :: "('k::linorder, 'v) node \<Rightarrow> 'k \<Rightarrow> nat" where
  "findChildIndex n key = findChildIndex_loop (keys n) key"

definition insertAt :: "('k, 'v) node \<Rightarrow> nat \<Rightarrow> 'k \<Rightarrow> 'v \<Rightarrow> ('k, 'v) node" where
  "insertAt n pos key val =
     n\<lparr>keys := insert_at pos key (keys n), vals := insert_at pos val (vals n)\<rparr>"

definition removeAt :: "('k, 'v) node \<Rightarrow> nat \<Rightarrow> ('k, 'v) node" where
  "removeAt n pos = n\<lparr>keys := remove_at pos (keys n), vals := remove_at pos (vals n)\<rparr>"

text \<open>The first index at which the scan of \<open>remove\<close> and of \<open>getNodeIndex\<close>
  finds its argument (\<open>None\<close> is the code's \<open>-1\<close>).\<close>

fun index_of :: "'a list \<Rightarrow> 'a \<Rightarrow> nat option" where
  "index_of [] x = None"
| "index_of (y # ys) x = (if y = x then Some 0 else map_option Suc (index_of ys x))"

definition nth_opt :: "'a list \<Rightarrow> nat \<Rightarrow> 'a option" where
  "nth_opt xs i = (if i < length xs then Some (xs ! i) else None)"

text \<open>\<open>findValue\<close>: \<open>Some None\<close> is the code's \<open>false\<close>, \<open>Some (Some v)\<close> is
  \<open>true\<close> with \<open>value = v\<close>, the value at the first index whose key equals
  \<open>key\<close>.\<close>

definition findValue :: "('k, 'v) node \<Rightarrow> 'k \<Rightarrow> 'v option option" where
  "findValue n key =
     (case index_of (keys n) key of
        None \<Rightarrow> Some None
      | Some i \<Rightarrow> do { v \<leftarrow> nth_opt (vals n) i; Some (Some v) })"

section \<open>The tree (BPlusTree.h)\<close>

text \<open>
  BPlusTree.h holds two revisions of the class, one after the other.  The
  first grows and shrinks the vectors of a node (\<open>push_back\<close>, \<open>insert\<close>,
  \<open>resize\<close>, \<open>pop_back\<close>, \<open>erase\<close>) as if they held the slots in use; the
  second writes by index into the vectors that the constructors of Node.h
  allocate in full, and is the revision that fits Node.h.  The model follows
  the second revision.  On the slots in use the first revision states the
  same updates, with these differences:

  \<^item> \<open>validateNode\<close> compares the number of children with \<open>numKeys + 1\<close> in
    the first revision only.  The model has this test, on the list of
    children that the node holds.
  \<^item> \<open>remove\<close> returns false for a null leaf in the second revision only.  In
    the model a child in use is an address, never null, and a descent that
    does not end in a leaf is \<open>None\<close>.
  \<^item> \<open>mergeNodes\<close> calls \<open>removeKeyAt\<close> before \<open>removeChildAt\<close> in the first
    revision and after it in the second.  \<open>removeChildAt\<close> counts the children
    from \<open>numKeys\<close>, so the order matters; the model has the order of the
    second revision.
\<close>

record ('k, 'v) BPlusTree =
  root :: "addr option"
  order :: nat
  maxKeys :: nat
  minKeys :: nat
  heap :: "addr \<Rightarrow> ('k, 'v) node option"
  fresh :: addr

text \<open>The constructor.  \<open>MIN_ORDER\<close> comes from Config.h, which is not part of
  the sources at hand, so it is a parameter.\<close>

definition BPlusTree_new :: "int \<Rightarrow> int \<Rightarrow> ('k, 'v) BPlusTree" where
  "BPlusTree_new MIN_ORDER ord =
     (let ord' = (if ord < MIN_ORDER then MIN_ORDER else ord) in
      \<lparr>root = None, order = nat ord', maxKeys = nat (ord' - 1),
       minKeys = nat ((ord' + 1) div 2 - 1), heap = (\<lambda>_. None), fresh = 0\<rparr>)"

definition store :: "('k, 'v) BPlusTree \<Rightarrow> addr \<Rightarrow> ('k, 'v) node \<Rightarrow> ('k, 'v) BPlusTree" where
  "store s a n = s\<lparr>heap := (heap s)(a \<mapsto> n)\<rparr>"

text \<open>\<open>new\<close> takes the next unused address; \<open>delete\<close> frees the object.\<close>

definition new_node :: "('k, 'v) BPlusTree \<Rightarrow> ('k, 'v) node \<Rightarrow> addr \<times> ('k, 'v) BPlusTree" where
  "new_node s n = (fresh s, s\<lparr>heap := (heap s)(fresh s \<mapsto> n), fresh := Suc (fresh s)\<rparr>)"

definition delete_node :: "('k, 'v) BPlusTree \<Rightarrow> addr \<Rightarrow> ('k, 'v) BPlusTree" where
  "delete_node s a = s\<lparr>heap := (heap s)(a := None)\<rparr>"

definition set_parent :: "('k, 'v) BPlusTree \<Rightarrow> addr \<Rightarrow> addr option \<Rightarrow> ('k, 'v) BPlusTree option" where
  "set_parent s a p = do { n \<leftarrow> heap s a; Some (store s a (n\<lparr>parent := p\<rparr>)) }"

fun set_parents :: "('k, 'v) BPlusTree \<Rightarrow> addr list \<Rightarrow> addr option \<Rightarrow> ('k, 'v) BPlusTree option" where
  "set_parents s [] p = Some s"
| "set_parents s (a # as) p = do { s' \<leftarrow> set_parent s a p; set_parents s' as p }"

text \<open>\<open>insertChildAt\<close> also redirects the parent pointer of the child.\<close>

definition insertChildAt ::
  "('k, 'v) BPlusTree \<Rightarrow> addr \<Rightarrow> nat \<Rightarrow> addr \<Rightarrow> ('k, 'v) BPlusTree option" where
  "insertChildAt s node pos child =
     do { n \<leftarrow> heap s node;
          let s1 = store s node (n\<lparr>children := insert_at pos child (children n)\<rparr>);
          set_parent s1 child (Some node) }"

definition isEmpty :: "('k, 'v) BPlusTree \<Rightarrow> bool" where
  "isEmpty s = (root s = None)"

subsection \<open>Lookup\<close>

partial_function (option) findLeaf_loop ::
  "('k::linorder, 'v) BPlusTree \<Rightarrow> addr \<Rightarrow> 'k \<Rightarrow> addr option" where
  "findLeaf_loop s current key =
     do { n \<leftarrow> heap s current;
          if isLeaf n then Some current
          else do { c \<leftarrow> nth_opt (children n) (findChildIndex n key);
                    findLeaf_loop s c key } }"

declare findLeaf_loop.simps [code]

definition findLeaf :: "('k::linorder, 'v) BPlusTree \<Rightarrow> 'k \<Rightarrow> addr option" where
  "findLeaf s key = do { r \<leftarrow> root s; findLeaf_loop s r key }"

definition search :: "('k::linorder, 'v) BPlusTree \<Rightarrow> 'k \<Rightarrow> 'v option option" where
  "search s key =
     (case root s of
        None \<Rightarrow> Some None
      | Some r \<Rightarrow> do { leaf \<leftarrow> findLeaf s key; n \<leftarrow> heap s leaf; findValue n key })"

subsection \<open>Insertion\<close>

text \<open>The part of \<open>splitInternal\<close> before its call of \<open>insertIntoParent\<close>: the
  new node gets the keys after the split point and the children after it,
  whose parent pointers are redirected.  The result is the new state, the
  promoted key and the new node.\<close>

definition splitInternal_body ::
  "('k, 'v) BPlusTree \<Rightarrow> addr \<Rightarrow> (('k, 'v) BPlusTree \<times> 'k \<times> addr) option" where
  "splitInternal_body s node =
     do { n \<leftarrow> heap s node;
          let (newNode, s1) = new_node s (InternalNode (maxKeys s));
          let splitPoint = (maxKeys s + 1) div 2;
          promoteKey \<leftarrow> nth_opt (keys n) splitPoint;
          nn \<leftarrow> heap s1 newNode;
          let s2 = store s1 newNode (nn\<lparr>keys := drop (splitPoint + 1) (keys n),
                                         children := drop (splitPoint + 1) (children n)\<rparr>);
          s3 \<leftarrow> set_parents s2 (drop (splitPoint + 1) (children n)) (Some newNode);
          n3 \<leftarrow> heap s3 node;
          let s4 = store s3 node (n3\<lparr>keys := take splitPoint (keys n3),
                                      children := take (splitPoint + 1) (children n3)\<rparr>);
          Some (s4, promoteKey, newNode) }"

partial_function (option) insertIntoParent ::
  "('k::linorder, 'v) BPlusTree \<Rightarrow> addr \<Rightarrow> 'k \<Rightarrow> addr \<Rightarrow> ('k, 'v) BPlusTree option" where
  "insertIntoParent s left key right =
     do { ln \<leftarrow> heap s left;
          case parent ln of
            None \<Rightarrow>
              do { let (newRoot, s1) = new_node s (InternalNode (maxKeys s));
                   nr \<leftarrow> heap s1 newRoot;
                   let s2 = store s1 newRoot (nr\<lparr>keys := [key], children := [left, right]\<rparr>);
                   s3 \<leftarrow> set_parent s2 left (Some newRoot);
                   s4 \<leftarrow> set_parent s3 right (Some newRoot);
                   Some (s4\<lparr>root := Some newRoot\<rparr>) }
          | Some p \<Rightarrow>
              do { pn \<leftarrow> heap s p;
                   let pos = findKeyPosition pn key;
                   let s1 = store s p (insertKeyAt pn pos key);
                   s2 \<leftarrow> insertChildAt s1 p (pos + 1) right;
                   pn2 \<leftarrow> heap s2 p;
                   if isFull pn2 then
                     do { (s3, promoteKey, newNode) \<leftarrow> splitInternal_body s2 p;
                          insertIntoParent s3 p promoteKey newNode }
                   else Some s2 } }"

declare insertIntoParent.simps [code]

definition splitInternal :: "('k::linorder, 'v) BPlusTree \<Rightarrow> addr \<Rightarrow> ('k, 'v) BPlusTree option" where
  "splitInternal s node =
     do { (s3, promoteKey, newNode) \<leftarrow> splitInternal_body s node;
          insertIntoParent s3 node promoteKey newNode }"

definition splitLeaf :: "('k::linorder, 'v) BPlusTree \<Rightarrow> addr \<Rightarrow> ('k, 'v) BPlusTree option" where
  "splitLeaf s leaf =
     do { n \<leftarrow> heap s leaf;
          let (newLeaf, s1) = new_node s (LeafNode (maxKeys s));
          let splitPoint = (maxKeys s + 1) div 2;
          nl \<leftarrow> heap s1 newLeaf;
          let s2 = store s1 newLeaf (nl\<lparr>keys := drop splitPoint (keys n),
                                        vals := drop splitPoint (vals n),
                                        next_leaf := next_leaf n,
                                        prev_leaf := Some leaf\<rparr>);
          let s3 = store s2 leaf (n\<lparr>keys := take splitPoint (keys n),
                                    vals := take splitPoint (vals n)\<rparr>);
          s4 \<leftarrow> (case next_leaf n of
                  None \<Rightarrow> Some s3
                | Some nx \<Rightarrow> do { nxn \<leftarrow> heap s3 nx;
                                  Some (store s3 nx (nxn\<lparr>prev_leaf := Some newLeaf\<rparr>)) });
          l4 \<leftarrow> heap s4 leaf;
          let s5 = store s4 leaf (l4\<lparr>next_leaf := Some newLeaf\<rparr>);
          nl5 \<leftarrow> heap s5 newLeaf;
          promoteKey \<leftarrow> nth_opt (keys nl5) 0;
          insertIntoParent s5 leaf promoteKey newLeaf }"

definition bpt_insert ::
  "('k::linorder, 'v) BPlusTree \<Rightarrow> 'k \<Rightarrow> 'v \<Rightarrow> ('k, 'v) BPlusTree option" where
  "bpt_insert s key val =
     (case root s of
        None \<Rightarrow>
          do { let (r, s1) = new_node s (LeafNode (maxKeys s));
               let s2 = s1\<lparr>root := Some r\<rparr>;
               leaf \<leftarrow> heap s2 r;
               Some (store s2 r (insertAt leaf 0 key val)) }
      | Some r \<Rightarrow>
          do { leaf \<leftarrow> findLeaf s key;
               n \<leftarrow> heap s leaf;
               let pos = findKeyPosition n key;
               if pos < numKeys n \<and> keys n ! pos = key then
                 Some (store s leaf (n\<lparr>vals := (vals n)[pos := val]\<rparr>))
               else
                 do { let n1 = insertAt n pos key val;
                      let s1 = store s leaf n1;
                      if isFull n1 then splitLeaf s1 leaf else Some s1 } })"


subsection \<open>Deletion\<close>

definition getNodeIndex :: "('k, 'v) BPlusTree \<Rightarrow> addr \<Rightarrow> nat option option" where
  "getNodeIndex s node =
     do { n \<leftarrow> heap s node;
          p \<leftarrow> parent n;
          pn \<leftarrow> heap s p;
          Some (index_of (children pn) node) }"

definition redistributeNodes ::
  "('k, 'v) BPlusTree \<Rightarrow> addr \<Rightarrow> addr \<Rightarrow> nat \<Rightarrow> bool \<Rightarrow> ('k, 'v) BPlusTree option" where
  "redistributeNodes s node sibling parentIndex isLeftSibling =
     do { n \<leftarrow> heap s node;
          p \<leftarrow> parent n;
          pn \<leftarrow> heap s p;
          sn \<leftarrow> heap s sibling;
          if parentIndex < numKeys pn then
            (if isLeaf n then
               (if isLeftSibling then
                  do { k \<leftarrow> nth_opt (keys sn) (numKeys sn - 1);
                       v \<leftarrow> nth_opt (vals sn) (numKeys sn - 1);
                       let s1 = store s node (n\<lparr>keys := k # keys n, vals := v # vals n\<rparr>);
                       sn1 \<leftarrow> heap s1 sibling;
                       let s2 = store s1 sibling (sn1\<lparr>keys := butlast (keys sn1),
                                                          vals := butlast (vals sn1)\<rparr>);
                       n2 \<leftarrow> heap s2 node;
                       k0 \<leftarrow> nth_opt (keys n2) 0;
                       pn2 \<leftarrow> heap s2 p;
                       Some (store s2 p (pn2\<lparr>keys := (keys pn2)[parentIndex := k0]\<rparr>)) }
                else
                  do { k \<leftarrow> nth_opt (keys sn) 0;
                       v \<leftarrow> nth_opt (vals sn) 0;
                       let s1 = store s node (n\<lparr>keys := keys n @ [k], vals := vals n @ [v]\<rparr>);
                       sn1 \<leftarrow> heap s1 sibling;
                       let s2 = store s1 sibling (sn1\<lparr>keys := tl (keys sn1), vals := tl (vals sn1)\<rparr>);
                       sn2 \<leftarrow> heap s2 sibling;
                       k0 \<leftarrow> nth_opt (keys sn2) 0;
                       pn2 \<leftarrow> heap s2 p;
                       Some (store s2 p (pn2\<lparr>keys := (keys pn2)[parentIndex := k0]\<rparr>)) })
             else
               (if isLeftSibling then
                  do { c \<leftarrow> nth_opt (children sn) (numKeys sn);
                       let s1 = store s node (n\<lparr>keys := keys pn ! parentIndex # keys n,
                                                  children := c # children n\<rparr>);
                       s2 \<leftarrow> set_parent s1 c (Some node);
                       sn2 \<leftarrow> heap s2 sibling;
                       k \<leftarrow> nth_opt (keys sn2) (numKeys sn2 - 1);
                       pn2 \<leftarrow> heap s2 p;
                       let s3 = store s2 p (pn2\<lparr>keys := (keys pn2)[parentIndex := k]\<rparr>);
                       sn3 \<leftarrow> heap s3 sibling;
                       Some (store s3 sibling (sn3\<lparr>keys := butlast (keys sn3),
                                                      children := butlast (children sn3)\<rparr>)) }
                else
                  do { c \<leftarrow> nth_opt (children sn) 0;
                       let s1 = store s node (n\<lparr>keys := keys n @ [keys pn ! parentIndex],
                                                  children := children n @ [c]\<rparr>);
                       s2 \<leftarrow> set_parent s1 c (Some node);
                       sn2 \<leftarrow> heap s2 sibling;
                       k \<leftarrow> nth_opt (keys sn2) 0;
                       pn2 \<leftarrow> heap s2 p;
                       let s3 = store s2 p (pn2\<lparr>keys := (keys pn2)[parentIndex := k]\<rparr>);
                       sn3 \<leftarrow> heap s3 sibling;
                       Some (store s3 sibling (sn3\<lparr>keys := tl (keys sn3),
                                                      children := tl (children sn3)\<rparr>)) }))
          else None }"

text \<open>The part of \<open>mergeNodes\<close> before its call of \<open>deleteEntry\<close>: \<open>right\<close> is
  absorbed into \<open>left\<close> and freed, and the separator and the child pointer
  leave the parent.  The result is the new state and the parent.\<close>

definition mergeNodes_body ::
  "('k, 'v) BPlusTree \<Rightarrow> addr \<Rightarrow> addr \<Rightarrow> nat \<Rightarrow> (('k, 'v) BPlusTree \<times> addr) option" where
  "mergeNodes_body s left right parentIndex =
     do { ln \<leftarrow> heap s left;
          rn \<leftarrow> heap s right;
          s3 \<leftarrow>
            (if isLeaf ln then
               do { let s1 = store s left (ln\<lparr>keys := keys ln @ keys rn,
                                                 vals := vals ln @ vals rn,
                                                 next_leaf := next_leaf rn\<rparr>);
                    s2 \<leftarrow> (case next_leaf rn of
                            None \<Rightarrow> Some s1
                          | Some nx \<Rightarrow> do { nxn \<leftarrow> heap s1 nx;
                                            Some (store s1 nx (nxn\<lparr>prev_leaf := Some left\<rparr>)) });
                    Some (delete_node s2 right) }
             else
               do { p \<leftarrow> parent ln;
                    pn \<leftarrow> heap s p;
                    sep \<leftarrow> nth_opt (keys pn) parentIndex;
                    let s1 = store s left (ln\<lparr>keys := keys ln @ sep # keys rn,
                                                 children := children ln @ children rn\<rparr>);
                    s2 \<leftarrow> set_parents s1 (children rn) (Some left);
                    Some (delete_node s2 right) });
          ln3 \<leftarrow> heap s3 left;
          p \<leftarrow> parent ln3;
          pn \<leftarrow> heap s3 p;
          if parentIndex < numKeys pn then
            Some (store s3 p (removeKeyAt (removeChildAt pn (parentIndex + 1)) parentIndex), p)
          else None }"

partial_function (option) deleteEntry ::
  "('k, 'v) BPlusTree \<Rightarrow> addr \<Rightarrow> ('k, 'v) BPlusTree option" where
  "deleteEntry s node =
     do { n \<leftarrow> heap s node;
          if root s = Some node then
            (if numKeys n = 0 then
               (if \<not> isLeaf n then
                  do { c \<leftarrow> nth_opt (children n) 0;
                       s1 \<leftarrow> set_parent (s\<lparr>root := Some c\<rparr>) c None;
                       Some (delete_node s1 node) }
                else Some (delete_node (s\<lparr>root := None\<rparr>) node))
             else Some s)
          else
            do { p \<leftarrow> parent n;
                 pn \<leftarrow> heap s p;
                 oi \<leftarrow> getNodeIndex s node;
                 case oi of
                   None \<Rightarrow> Some s
                 | Some nodeIndex \<Rightarrow>
                     do { borrowLeft \<leftarrow>
                            (if nodeIndex > 0 then
                               do { l \<leftarrow> nth_opt (children pn) (nodeIndex - 1);
                                    ln \<leftarrow> heap s l;
                                    Some (numKeys ln > minKeys s) }
                             else Some False);
                          if borrowLeft then
                            do { l \<leftarrow> nth_opt (children pn) (nodeIndex - 1);
                                 redistributeNodes s node l (nodeIndex - 1) True }
                          else
                            do { borrowRight \<leftarrow>
                                   (if nodeIndex < numKeys pn then
                                      do { r \<leftarrow> nth_opt (children pn) (nodeIndex + 1);
                                           rn \<leftarrow> heap s r;
                                           Some (numKeys rn > minKeys s) }
                                    else Some False);
                                 if borrowRight then
                                   do { r \<leftarrow> nth_opt (children pn) (nodeIndex + 1);
                                        redistributeNodes s node r nodeIndex False }
                                 else
                                   do { (s', p') \<leftarrow>
                                          (if nodeIndex > 0 then
                                             do { l \<leftarrow> nth_opt (children pn) (nodeIndex - 1);
                                                  mergeNodes_body s l node (nodeIndex - 1) }
                                           else
                                             do { r \<leftarrow> nth_opt (children pn) (nodeIndex + 1);
                                                  mergeNodes_body s node r nodeIndex });
                                        pn' \<leftarrow> heap s' p';
                                        if isUnderflow pn' (minKeys s') then deleteEntry s' p'
                                        else Some s' } } } } }"

declare deleteEntry.simps [code]

definition mergeNodes ::
  "('k, 'v) BPlusTree \<Rightarrow> addr \<Rightarrow> addr \<Rightarrow> nat \<Rightarrow> ('k, 'v) BPlusTree option" where
  "mergeNodes s left right parentIndex =
     do { (s', p') \<leftarrow> mergeNodes_body s left right parentIndex;
          pn' \<leftarrow> heap s' p';
          if isUnderflow pn' (minKeys s') then deleteEntry s' p' else Some s' }"

text \<open>\<open>remove\<close> returns the code's boolean and the new state.\<close>

definition remove ::
  "('k::linorder, 'v) BPlusTree \<Rightarrow> 'k \<Rightarrow> (bool \<times> ('k, 'v) BPlusTree) option" where
  "remove s key =
     (case root s of
        None \<Rightarrow> Some (False, s)
      | Some r \<Rightarrow>
          do { leaf \<leftarrow> findLeaf s key;
               n \<leftarrow> heap s leaf;
               case index_of (keys n) key of
                 None \<Rightarrow> Some (False, s)
               | Some pos \<Rightarrow>
                   do { let n1 = removeAt n pos;
                        let s1 = store s leaf n1;
                        if Some leaf = root s1 then
                          (if numKeys n1 = 0 then Some (True, delete_node (s1\<lparr>root := None\<rparr>) r)
                           else Some (True, s1))
                        else if isUnderflow n1 (minKeys s1) then
                          do { s2 \<leftarrow> deleteEntry s1 leaf; Some (True, s2) }
                        else Some (True, s1) } })"

subsection \<open>Range query, height and validation\<close>

text \<open>The inner loop of \<open>rangeQuery\<close> over one leaf; the flag says that the loop
  returned from the function (a key beyond \<open>end\<close> was seen).\<close>

fun scan_leaf ::
  "('k::linorder) \<Rightarrow> 'k \<Rightarrow> 'k list \<Rightarrow> 'v list \<Rightarrow> ('k \<times> 'v) list \<Rightarrow> ('k \<times> 'v) list \<times> bool" where
  "scan_leaf start end (k # ks) (v # vs) result =
     (if k \<ge> start \<and> k \<le> end then scan_leaf start end ks vs (result @ [(k, v)])
      else if k > end then (result, True)
      else scan_leaf start end ks vs result)"
| "scan_leaf start end _ _ result = (result, False)"

partial_function (option) rangeQuery_loop ::
  "('k::linorder, 'v) BPlusTree \<Rightarrow> addr option \<Rightarrow> 'k \<Rightarrow> 'k \<Rightarrow> ('k \<times> 'v) list
     \<Rightarrow> ('k \<times> 'v) list option" where
  "rangeQuery_loop s leaf start end result =
     (case leaf of
        None \<Rightarrow> Some result
      | Some a \<Rightarrow>
          do { n \<leftarrow> heap s a;
               let (result', returned) = scan_leaf start end (keys n) (vals n) result;
               if returned then Some result'
               else rangeQuery_loop s (next_leaf n) start end result' })"

declare rangeQuery_loop.simps [code]

definition rangeQuery ::
  "('k::linorder, 'v) BPlusTree \<Rightarrow> 'k \<Rightarrow> 'k \<Rightarrow> ('k \<times> 'v) list option" where
  "rangeQuery s start end =
     (case root s of
        None \<Rightarrow> Some []
      | Some r \<Rightarrow> do { leaf \<leftarrow> findLeaf s start; rangeQuery_loop s (Some leaf) start end [] })"

partial_function (option) height_loop :: "('k, 'v) BPlusTree \<Rightarrow> addr \<Rightarrow> nat \<Rightarrow> nat option" where
  "height_loop s current h =
     do { n \<leftarrow> heap s current;
          if \<not> isLeaf n then
            do { c \<leftarrow> nth_opt (children n) 0; height_loop s c (h + 1) }
          else Some h }"

declare height_loop.simps [code]

definition height :: "('k, 'v) BPlusTree \<Rightarrow> nat option" where
  "height s = (case root s of None \<Rightarrow> Some 0 | Some r \<Rightarrow> height_loop s r 1)"

text \<open>The check of \<open>validateNode\<close> that the keys of a node increase strictly.\<close>

fun keys_sorted :: "('k::linorder) list \<Rightarrow> bool" where
  "keys_sorted (x # y # ys) = (if x \<ge> y then False else keys_sorted (y # ys))"
| "keys_sorted _ = True"

text \<open>\<open>validateNode\<close> threads \<open>leafLevel\<close> (\<open>None\<close> is the code's \<open>-1\<close>) and
  returns it with the verdict.  The recursion follows child pointers; the
  first argument bounds its depth, and the result is \<open>None\<close> when the bound
  is reached.  For an internal node the first revision of the file rejects a
  node whose \<open>children\<close> vector does not have \<open>numKeys + 1\<close> elements and
  then visits every element of the vector; the second revision has no such
  test and visits \<open>children[0..numKeys]\<close>.  The model has the test of the
  first revision, on the list of children that the node holds; where the test
  passes the two revisions visit the same children.\<close>

fun validateNode ::
  "nat \<Rightarrow> ('k::linorder, 'v) BPlusTree \<Rightarrow> addr \<Rightarrow> nat \<Rightarrow> nat option \<Rightarrow> (bool \<times> nat option) option"
and validateChildren ::
  "nat \<Rightarrow> ('k::linorder, 'v) BPlusTree \<Rightarrow> addr list \<Rightarrow> nat \<Rightarrow> nat option \<Rightarrow> (bool \<times> nat option) option"
where
  "validateNode 0 s node level leafLevel = None"
| "validateNode (Suc fuel) s node level leafLevel =
     do { n \<leftarrow> heap s node;
          if Some node \<noteq> root s \<and> (numKeys n < minKeys s \<or> numKeys n > maxKeys s)
          then Some (False, leafLevel)
          else if \<not> keys_sorted (keys n) then Some (False, leafLevel)
          else if isLeaf n then
            (case leafLevel of
               None \<Rightarrow> Some (True, Some level)
             | Some l \<Rightarrow> if l \<noteq> level then Some (False, leafLevel) else Some (True, leafLevel))
          else if length (children n) \<noteq> numKeys n + 1 then Some (False, leafLevel)
          else validateChildren fuel s (children n) (level + 1) leafLevel }"
| "validateChildren fuel s [] level leafLevel = Some (True, leafLevel)"
| "validateChildren fuel s (c # cs) level leafLevel =
     do { (ok, leafLevel') \<leftarrow> validateNode fuel s c level leafLevel;
          if \<not> ok then Some (False, leafLevel')
          else validateChildren fuel s cs level leafLevel' }"

definition validate :: "nat \<Rightarrow> ('k::linorder, 'v) BPlusTree \<Rightarrow> bool option" where
  "validate fuel s =
     (case root s of
        None \<Rightarrow> Some True
      | Some r \<Rightarrow> map_option fst (validateNode fuel s r 0 None))"


section \<open>The tree that a store represents\<close>

text \<open>
  The shape of a B+ tree, with the address of every node: a leaf with its
  keys and values, an internal node with its separator keys and subtrees.
  \<open>rep h mx par t\<close> says that the store \<open>h\<close> holds \<open>t\<close> below a node whose
  parent pointer is \<open>par\<close>, every node built for \<open>maxKeys = mx\<close>.
\<close>

datatype ('k, 'v) bt = Lf addr "'k list" "'v list" | Nd addr "'k list" "('k, 'v) bt list"

fun addr_of :: "('k, 'v) bt \<Rightarrow> addr" where
  "addr_of (Lf a ks vs) = a"
| "addr_of (Nd a ks ts) = a"

fun nkeys :: "('k, 'v) bt \<Rightarrow> nat" where
  "nkeys (Lf a ks vs) = length ks"
| "nkeys (Nd a ks ts) = length ks"

fun addrs :: "('k, 'v) bt \<Rightarrow> addr list" where
  "addrs (Lf a ks vs) = [a]"
| "addrs (Nd a ks ts) = a # concat (map addrs ts)"

fun leaves :: "('k, 'v) bt \<Rightarrow> addr list" where
  "leaves (Lf a ks vs) = [a]"
| "leaves (Nd a ks ts) = concat (map leaves ts)"

fun entries :: "('k, 'v) bt \<Rightarrow> ('k \<times> 'v) list" where
  "entries (Lf a ks vs) = zip ks vs"
| "entries (Nd a ks ts) = concat (map entries ts)"

text \<open>All keys of a subtree, separators included.\<close>

fun allkeys :: "('k, 'v) bt \<Rightarrow> 'k set" where
  "allkeys (Lf a ks vs) = set ks"
| "allkeys (Nd a ks ts) = set ks \<union> (\<Union>t \<in> set ts. allkeys t)"

fun bheight :: "('k, 'v) bt \<Rightarrow> nat" where
  "bheight (Lf a ks vs) = 0"
| "bheight (Nd a ks ts) = Suc (case ts of [] \<Rightarrow> 0 | t # _ \<Rightarrow> bheight t)"

text \<open>All leaves at the same depth.\<close>

fun bal :: "('k, 'v) bt \<Rightarrow> bool" where
  "bal (Lf a ks vs) = True"
| "bal (Nd a ks ts) =
     (\<forall>t \<in> set ts. bal t \<and> bheight t = (case ts of [] \<Rightarrow> 0 | t # _ \<Rightarrow> bheight t))"

text \<open>Keys strictly increasing within every node, and every separator
  \<open>keys[i]\<close> above all keys of \<open>children[i]\<close> and at most all keys of
  \<open>children[i+1]\<close>.\<close>

fun ordered :: "('k::linorder, 'v) bt \<Rightarrow> bool" where
  "ordered (Lf a ks vs) = sorted_wrt (<) ks"
| "ordered (Nd a ks ts) =
     (sorted_wrt (<) ks \<and> (\<forall>t \<in> set ts. ordered t) \<and>
      (\<forall>i < length ks. (\<forall>k \<in> allkeys (ts ! i). k < ks ! i) \<and>
                        (\<forall>k \<in> allkeys (ts ! Suc i). ks ! i \<le> k)))"

text \<open>Key counts: at least \<open>lo\<close> keys in this node and at least \<open>mn\<close> in every
  node below it, at most \<open>mx\<close> everywhere; one child more than keys; as many
  values as keys.\<close>

fun counts :: "nat \<Rightarrow> nat \<Rightarrow> nat \<Rightarrow> ('k, 'v) bt \<Rightarrow> bool" where
  "counts lo mn mx (Lf a ks vs) = (lo \<le> length ks \<and> length ks \<le> mx \<and> length vs = length ks)"
| "counts lo mn mx (Nd a ks ts) =
     (lo \<le> length ks \<and> length ks \<le> mx \<and> length ts = Suc (length ks) \<and>
      (\<forall>t \<in> set ts. counts mn mn mx t))"

fun rep :: "(addr \<Rightarrow> ('k, 'v) node option) \<Rightarrow> nat \<Rightarrow> addr option \<Rightarrow> ('k, 'v) bt \<Rightarrow> bool" where
  "rep h mx par (Lf a ks vs) =
     (case h a of
        None \<Rightarrow> False
      | Some n \<Rightarrow> isLeaf n \<and> keys n = ks \<and> vals n = vs \<and> parent n = par \<and> nmaxKeys n = mx)"
| "rep h mx par (Nd a ks ts) =
     (case h a of
        None \<Rightarrow> False
      | Some n \<Rightarrow> \<not> isLeaf n \<and> keys n = ks \<and> children n = map addr_of ts \<and> parent n = par \<and>
          nmaxKeys n = mx \<and> (\<forall>t \<in> set ts. rep h mx (Some a) t))"

text \<open>The leaf chain: following \<open>next\<close> from the first leaf of the list visits
  the list in order and then reaches \<open>nx\<close>.\<close>

fun nchain :: "(addr \<Rightarrow> ('k, 'v) node option) \<Rightarrow> addr list \<Rightarrow> addr option \<Rightarrow> bool" where
  "nchain h [] nx = True"
| "nchain h (a # as) nx =
     ((case h a of
         None \<Rightarrow> False
       | Some n \<Rightarrow> next_leaf n = (case as of [] \<Rightarrow> nx | b # _ \<Rightarrow> Some b)) \<and>
      nchain h as nx)"

text \<open>The parameters of a tree of order at least 3, as the constructor sets
  them.\<close>

definition params_ok :: "('k, 'v) BPlusTree \<Rightarrow> bool" where
  "params_ok s = (2 \<le> maxKeys s \<and> minKeys s = (maxKeys s + 2) div 2 - 1)"

text \<open>The structural invariants of a non-empty tree \<open>s\<close> with shape \<open>t\<close>.\<close>

definition tree_inv :: "('k::linorder, 'v) BPlusTree \<Rightarrow> ('k, 'v) bt \<Rightarrow> bool" where
  "tree_inv s t =
     (params_ok s \<and> root s = Some (addr_of t) \<and> rep (heap s) (maxKeys s) None t \<and>
      distinct (addrs t) \<and> (\<forall>a \<in> set (addrs t). a < fresh s) \<and>
      bal t \<and> ordered t \<and> counts 1 (minKeys s) (maxKeys s) t \<and>
      nchain (heap s) (leaves t) None)"

definition inv :: "('k::linorder, 'v) BPlusTree \<Rightarrow> bool" where
  "inv s = (if root s = None then params_ok s else (\<exists>t. tree_inv s t))"

text \<open>The position that \<open>findKeyPosition\<close> finds in a sorted array: the number
  of keys below \<open>key\<close>.\<close>

definition pos_of :: "('k::linorder) list \<Rightarrow> 'k \<Rightarrow> nat" where
  "pos_of ks key = length (filter (\<lambda>x. x < key) ks)"

section \<open>Insertion and deletion on the represented tree\<close>

text \<open>
  What \<open>insert\<close> and \<open>remove\<close> do to the shape, level by level as the code
  does it: \<open>ins\<close> returns the subtree, or the two halves and the promoted
  key when the node was split (\<open>UpI\<close>), together with the next unused
  address; \<open>del\<close> returns the subtree and says whether \<open>deleteEntry\<close> is
  called on it (\<open>Under\<close>).
\<close>

definition splitPoint :: "nat \<Rightarrow> nat" where
  "splitPoint mx = (mx + 1) div 2"

datatype ('k, 'v) up = TI "('k, 'v) bt" | UpI "('k, 'v) bt" 'k "('k, 'v) bt"

fun up_trees :: "('k, 'v) up \<Rightarrow> ('k, 'v) bt list" where
  "up_trees (TI t) = [t]"
| "up_trees (UpI l sep r) = [l, r]"

fun up_ordered :: "('k::linorder, 'v) up \<Rightarrow> bool" where
  "up_ordered (TI t) = ordered t"
| "up_ordered (UpI l sep r) =
     (ordered l \<and> ordered r \<and> (\<forall>x \<in> allkeys l. x < sep) \<and> (\<forall>x \<in> allkeys r. sep \<le> x) \<and>
      allkeys l \<noteq> {})"

fun up_keys :: "('k, 'v) up \<Rightarrow> 'k set" where
  "up_keys (TI t) = allkeys t"
| "up_keys (UpI l sep r) = allkeys l \<union> allkeys r \<union> {sep}"

definition up_entries :: "('k, 'v) up \<Rightarrow> ('k \<times> 'v) list" where
  "up_entries u = concat (map entries (up_trees u))"

definition up_addrs :: "('k, 'v) up \<Rightarrow> addr list" where
  "up_addrs u = concat (map addrs (up_trees u))"

definition up_leaves :: "('k, 'v) up \<Rightarrow> addr list" where
  "up_leaves u = concat (map leaves (up_trees u))"

fun up_counts :: "nat \<Rightarrow> nat \<Rightarrow> nat \<Rightarrow> ('k, 'v) up \<Rightarrow> bool" where
  "up_counts lo mn mx (TI t) = counts lo mn mx t"
| "up_counts lo mn mx (UpI l sep r) = (counts mn mn mx l \<and> counts mn mn mx r)"

definition upd_set :: "'k \<Rightarrow> 'v \<Rightarrow> ('k \<times> 'v) set \<Rightarrow> ('k \<times> 'v) set" where
  "upd_set k v S = insert (k, v) {e \<in> S. fst e \<noteq> k}"

definition leaf_ins ::
  "nat \<Rightarrow> addr \<Rightarrow> ('k::linorder) \<Rightarrow> 'v \<Rightarrow> addr \<Rightarrow> 'k list \<Rightarrow> 'v list \<Rightarrow> ('k, 'v) up \<times> addr" where
  "leaf_ins mx f k v a ks vs =
     (let pos = findKeyPosition_loop ks k 0 (int (length ks) - 1) (length ks) in
      if pos < length ks \<and> ks ! pos = k then (TI (Lf a ks (vs[pos := v])), f)
      else
        (let ks' = insert_at pos k ks; vs' = insert_at pos v vs in
         if length ks' > mx then
           (UpI (Lf a (take (splitPoint mx) ks') (take (splitPoint mx) vs'))
                (ks' ! splitPoint mx)
                (Lf f (drop (splitPoint mx) ks') (drop (splitPoint mx) vs')), Suc f)
         else (TI (Lf a ks' vs'), f)))"

definition node_ins ::
  "nat \<Rightarrow> addr \<Rightarrow> addr \<Rightarrow> 'k list \<Rightarrow> ('k, 'v) bt list \<Rightarrow> nat \<Rightarrow> ('k, 'v) bt \<Rightarrow> 'k \<Rightarrow> ('k, 'v) bt
     \<Rightarrow> ('k, 'v) up \<times> addr" where
  "node_ins mx f a ks ts i l sep r =
     (let ks' = insert_at i sep ks; ts' = insert_at (Suc i) r (ts[i := l]) in
      if length ks' > mx then
        (UpI (Nd a (take (splitPoint mx) ks') (take (Suc (splitPoint mx)) ts'))
             (ks' ! splitPoint mx)
             (Nd f (drop (Suc (splitPoint mx)) ks') (drop (Suc (splitPoint mx)) ts')), Suc f)
      else (TI (Nd a ks' ts'), f))"

function ins ::
  "nat \<Rightarrow> addr \<Rightarrow> ('k::linorder) \<Rightarrow> 'v \<Rightarrow> ('k, 'v) bt \<Rightarrow> ('k, 'v) up \<times> addr" where
  "ins mx f k v (Lf a ks vs) = leaf_ins mx f k v a ks vs"
| "ins mx f k v (Nd a ks ts) =
     (let i = findChildIndex_loop ks k in
      if i < length ts then
        (case ins mx f k v (ts ! i) of
           (TI c, f') \<Rightarrow> (TI (Nd a ks (ts[i := c])), f')
         | (UpI l sep r, f') \<Rightarrow> node_ins mx f' a ks ts i l sep r)
      else (TI (Nd a ks ts), f))"
  by pat_completeness auto
termination
proof (relation "measure (\<lambda>(mx, f, k, v, t). size t)", goal_cases)
  case 1
  show ?case by simp
next
  case (2 mx f k v a ks ts i)
  then have "ts ! i \<in> set ts" by simp
  then have "size (ts ! i) \<le> size_list size ts" by (rule size_list_estimation') simp
  then show ?case by simp
qed

definition tree_ins ::
  "nat \<Rightarrow> addr \<Rightarrow> ('k::linorder) \<Rightarrow> 'v \<Rightarrow> ('k, 'v) bt \<Rightarrow> ('k, 'v) bt \<times> addr" where
  "tree_ins mx f k v t =
     (case ins mx f k v t of
        (TI t', f') \<Rightarrow> (t', f')
      | (UpI l sep r, f') \<Rightarrow> (Nd f' [sep] [l, r], Suc f'))"

datatype ('k, 'v) down = Done "('k, 'v) bt" | Under "('k, 'v) bt"

fun the_tree :: "('k, 'v) down \<Rightarrow> ('k, 'v) bt" where
  "the_tree (Done t) = t"
| "the_tree (Under t) = t"

definition leaf_del :: "nat \<Rightarrow> 'k \<Rightarrow> addr \<Rightarrow> 'k list \<Rightarrow> 'v list \<Rightarrow> ('k, 'v) down" where
  "leaf_del mn k a ks vs =
     (case index_of ks k of
        None \<Rightarrow> Done (Lf a ks vs)
      | Some pos \<Rightarrow>
          (if length (remove_at pos ks) < mn
           then Under (Lf a (remove_at pos ks) (remove_at pos vs))
           else Done (Lf a (remove_at pos ks) (remove_at pos vs))))"

text \<open>The four repairs of \<open>deleteEntry\<close> at the parent \<open>Nd a ks ts\<close> of the
  underflowed child \<open>ts ! i\<close>.\<close>

fun borrow_left :: "'k \<Rightarrow> ('k, 'v) bt \<Rightarrow> ('k, 'v) bt \<Rightarrow> ('k, 'v) bt \<times> 'k \<times> ('k, 'v) bt" where
  "borrow_left sep (Lf b lks lvs) (Lf a ks vs) =
     (Lf b (butlast lks) (butlast lvs), last lks, Lf a (last lks # ks) (last lvs # vs))"
| "borrow_left sep (Nd b lks lts) (Nd a ks ts) =
     (Nd b (butlast lks) (butlast lts), last lks, Nd a (sep # ks) (last lts # ts))"
| "borrow_left sep l t = (l, sep, t)"

fun borrow_right :: "'k \<Rightarrow> ('k, 'v) bt \<Rightarrow> ('k, 'v) bt \<Rightarrow> ('k, 'v) bt \<times> 'k \<times> ('k, 'v) bt" where
  "borrow_right sep (Lf a ks vs) (Lf b rks rvs) =
     (Lf a (ks @ [hd rks]) (vs @ [hd rvs]), hd (tl rks), Lf b (tl rks) (tl rvs))"
| "borrow_right sep (Nd a ks ts) (Nd b rks rts) =
     (Nd a (ks @ [sep]) (ts @ [hd rts]), hd rks, Nd b (tl rks) (tl rts))"
| "borrow_right sep t r = (t, sep, r)"

fun merge :: "'k \<Rightarrow> ('k, 'v) bt \<Rightarrow> ('k, 'v) bt \<Rightarrow> ('k, 'v) bt" where
  "merge sep (Lf a ks vs) (Lf b rks rvs) = Lf a (ks @ rks) (vs @ rvs)"
| "merge sep (Nd a ks ts) (Nd b rks rts) = Nd a (ks @ sep # rks) (ts @ rts)"
| "merge sep l r = l"

definition rebalance ::
  "nat \<Rightarrow> addr \<Rightarrow> 'k list \<Rightarrow> ('k, 'v) bt list \<Rightarrow> nat \<Rightarrow> ('k, 'v) down" where
  "rebalance mn a ks ts i =
     (if 0 < i \<and> nkeys (ts ! (i - 1)) > mn then
        (case borrow_left (ks ! (i - 1)) (ts ! (i - 1)) (ts ! i) of
           (l, sep, t) \<Rightarrow> Done (Nd a (ks[i - 1 := sep]) (ts[i - 1 := l, i := t])))
      else if i < length ks \<and> nkeys (ts ! Suc i) > mn then
        (case borrow_right (ks ! i) (ts ! i) (ts ! Suc i) of
           (t, sep, r) \<Rightarrow> Done (Nd a (ks[i := sep]) (ts[i := t, Suc i := r])))
      else
        (let j = (if 0 < i then i - 1 else i);
             ks' = remove_at j ks;
             ts' = remove_at (Suc j) (ts[j := merge (ks ! j) (ts ! j) (ts ! Suc j)]) in
         if length ks' < mn then Under (Nd a ks' ts') else Done (Nd a ks' ts')))"

function del :: "nat \<Rightarrow> ('k::linorder) \<Rightarrow> ('k, 'v) bt \<Rightarrow> ('k, 'v) down" where
  "del mn k (Lf a ks vs) = leaf_del mn k a ks vs"
| "del mn k (Nd a ks ts) =
     (let i = findChildIndex_loop ks k in
      if i < length ts then
        (case del mn k (ts ! i) of
           Done c \<Rightarrow> Done (Nd a ks (ts[i := c]))
         | Under c \<Rightarrow> rebalance mn a ks (ts[i := c]) i)
      else Done (Nd a ks ts))"
  by pat_completeness auto
termination
proof (relation "measure (\<lambda>(mn, k, t). size t)", goal_cases)
  case 1
  show ?case by simp
next
  case (2 mn k a ks ts i)
  then have "ts ! i \<in> set ts" by simp
  then have "size (ts ! i) \<le> size_list size ts" by (rule size_list_estimation') simp
  then show ?case by simp
qed

text \<open>The whole tree after \<open>remove\<close>: \<open>None\<close> is the empty tree.\<close>

definition tree_del :: "nat \<Rightarrow> ('k::linorder) \<Rightarrow> ('k, 'v) bt \<Rightarrow> ('k, 'v) bt option" where
  "tree_del mn k t =
     (case t of
        Lf a ks vs \<Rightarrow>
          (case index_of ks k of
             None \<Rightarrow> Some t
           | Some pos \<Rightarrow>
               if length (remove_at pos ks) = 0 then None
               else Some (Lf a (remove_at pos ks) (remove_at pos vs)))
      | Nd a ks ts \<Rightarrow>
          (case del mn k t of
             Done t' \<Rightarrow> Some t'
           | Under t' \<Rightarrow>
               (case t' of
                  Nd a' [] (c # cs) \<Rightarrow> Some c
                | _ \<Rightarrow> Some t')))"

section \<open>Stores before and after an insertion\<close>

text \<open>Two stores are compared slot by slot. The back links of the leaves are
  written by the code but never read by the operations modelled here, so a
  slot may differ in \<open>prev_leaf\<close>. \<open>frame s s' A\<close> says that the operation
  that led from \<open>s\<close> to \<open>s'\<close> left the root, the parameters and every
  allocated slot outside \<open>A\<close> as they were.\<close>

definition same_but_prev :: "('k, 'v) node option \<Rightarrow> ('k, 'v) node option \<Rightarrow> bool" where
  "same_but_prev x y = (case x of None \<Rightarrow> y = None | Some n \<Rightarrow> (\<exists>p. y = Some (n\<lparr>prev_leaf := p\<rparr>)))"

definition frame :: "('k, 'v) BPlusTree \<Rightarrow> ('k, 'v) BPlusTree \<Rightarrow> addr set \<Rightarrow> bool" where
  "frame s s' A =
     (root s' = root s \<and> maxKeys s' = maxKeys s \<and> minKeys s' = minKeys s \<and>
      (\<forall>a. a \<notin> A \<longrightarrow> a < fresh s \<longrightarrow> same_but_prev (heap s a) (heap s' a)))"

definition next_same :: "('k, 'v) BPlusTree \<Rightarrow> ('k, 'v) BPlusTree \<Rightarrow> bool" where
  "next_same s s' =
     (\<forall>a < fresh s. map_option next_leaf (heap s' a) = map_option next_leaf (heap s a))"

fun rep_up :: "(addr \<Rightarrow> ('k, 'v) node option) \<Rightarrow> nat \<Rightarrow> addr option \<Rightarrow> ('k, 'v) up \<Rightarrow> bool" where
  "rep_up h mx par (TI t) = rep h mx par t"
| "rep_up h mx par (UpI l sep r) = (rep h mx par l \<and> rep h mx None r)"

fun up_cont :: "('k::linorder, 'v) BPlusTree \<Rightarrow> ('k, 'v) up \<Rightarrow> ('k, 'v) BPlusTree option" where
  "up_cont s (TI t) = Some s"
| "up_cont s (UpI l sep r) = insertIntoParent s (addr_of l) sep (addr_of r)"

definition hdo :: "addr list \<Rightarrow> addr option \<Rightarrow> addr option" where
  "hdo ls nx = (case ls of [] \<Rightarrow> nx | b # _ \<Rightarrow> Some b)"

text \<open>The part of \<open>insert\<close> after \<open>findLeaf\<close>.\<close>

definition insert_leaf ::
  "('k::linorder, 'v) BPlusTree \<Rightarrow> addr \<Rightarrow> 'k \<Rightarrow> 'v \<Rightarrow> ('k, 'v) BPlusTree option" where
  "insert_leaf s leaf key val =
     do { n \<leftarrow> heap s leaf;
          let pos = findKeyPosition n key;
          if pos < numKeys n \<and> keys n ! pos = key then
            Some (store s leaf (n\<lparr>vals := (vals n)[pos := val]\<rparr>))
          else
            do { let n1 = insertAt n pos key val;
                 let s1 = store s leaf n1;
                 if isFull n1 then splitLeaf s1 leaf else Some s1 } }"

definition split_leaf_state ::
  "('k, 'v) BPlusTree \<Rightarrow> addr \<Rightarrow> ('k, 'v) node \<Rightarrow> ('k, 'v) BPlusTree" where
  "split_leaf_state s a n =
     s\<lparr>fresh := Suc (fresh s),
       heap := (\<lambda>b. if b = a then Some (n\<lparr>keys := take (splitPoint (maxKeys s)) (keys n),
                                            vals := take (splitPoint (maxKeys s)) (vals n),
                                            next_leaf := Some (fresh s)\<rparr>)
                  else if b = fresh s then Some ((LeafNode (maxKeys s))\<lparr>keys := drop (splitPoint (maxKeys s)) (keys n),
                                                  vals := drop (splitPoint (maxKeys s)) (vals n),
                                                  next_leaf := next_leaf n,
                                                  prev_leaf := Some a\<rparr>)
                  else if next_leaf n = Some b then map_option (\<lambda>m. m\<lparr>prev_leaf := Some (fresh s)\<rparr>) (heap s b)
                  else heap s b)\<rparr>"

section \<open>Example trees\<close>

text \<open>A tree of order 4 with two leaves, as four insertions build it, and a
  tree of the same shape whose leaves are on the wrong sides of the
  separator.\<close>

definition ex_tree :: "(nat, nat) BPlusTree" where
  "ex_tree =
     \<lparr>root = Some 2, order = 4, maxKeys = 3, minKeys = 1,
      heap = (\<lambda>_. None)
        (0 \<mapsto> \<lparr>isLeaf = True, keys = [10, 20], parent = Some 2, nmaxKeys = 3, children = [],
               vals = [1, 2], next_leaf = Some 1, prev_leaf = None\<rparr>,
         1 \<mapsto> \<lparr>isLeaf = True, keys = [30, 40], parent = Some 2, nmaxKeys = 3, children = [],
               vals = [3, 4], next_leaf = None, prev_leaf = Some 0\<rparr>,
         2 \<mapsto> \<lparr>isLeaf = False, keys = [30], parent = None, nmaxKeys = 3, children = [0, 1],
               vals = [], next_leaf = None, prev_leaf = None\<rparr>),
      fresh = 3\<rparr>"

definition ex_shape :: "(nat, nat) bt" where
  "ex_shape = Nd 2 [30] [Lf 0 [10, 20] [1, 2], Lf 1 [30, 40] [3, 4]]"



section \<open>Arrays and searches\<close>

subsection \<open>Lists\<close>

lemma length_insert_at [simp]: "length (insert_at i x xs) = Suc (length xs)"
  by (simp add: insert_at_def)

lemma length_remove_at [simp]: "i < length xs \<Longrightarrow> length (remove_at i xs) = length xs - 1"
  by (simp add: remove_at_def)

lemma nth_insert_at:
  "i \<le> length xs \<Longrightarrow> insert_at i x xs ! j = (if j < i then xs ! j else if j = i then x else xs ! (j - 1))"
  by (auto simp: insert_at_def nth_append min_def)

lemma nth_remove_at:
  "i < length xs \<Longrightarrow> j < length xs - 1 \<Longrightarrow> remove_at i xs ! j = (if j < i then xs ! j else xs ! Suc j)"
  by (auto simp: remove_at_def nth_append min_def)

lemma set_insert_at [simp]: "set (insert_at i x xs) = insert x (set xs)"
proof -
  have "set (take i xs) \<union> set (drop i xs) = set xs"
    by (metis append_take_drop_id set_append)
  then show ?thesis by (auto simp: insert_at_def)
qed

lemma set_remove_at_subset: "set (remove_at i xs) \<subseteq> set xs"
  by (auto simp: remove_at_def dest: in_set_takeD in_set_dropD)

lemma map_insert_at: "map f (insert_at i x xs) = insert_at i (f x) (map f xs)"
  by (simp add: insert_at_def take_map drop_map)

lemma map_remove_at: "map f (remove_at i xs) = remove_at i (map f xs)"
  by (simp add: remove_at_def take_map drop_map)

lemma index_of_None: "index_of xs x = None \<longleftrightarrow> x \<notin> set xs"
  by (induction xs) auto

lemma index_of_Some: "index_of xs x = Some i \<Longrightarrow> i < length xs \<and> xs ! i = x"
  by (induction xs arbitrary: i) (auto split: if_splits)

lemma index_of_nth: "distinct xs \<Longrightarrow> i < length xs \<Longrightarrow> index_of xs (xs ! i) = Some i"
proof (induction xs arbitrary: i)
  case Nil
  then show ?case by simp
next
  case (Cons y ys)
  then show ?case by (cases i) auto
qed

lemma nth_opt_Some [simp]: "i < length xs \<Longrightarrow> nth_opt xs i = Some (xs ! i)"
  by (simp add: nth_opt_def)

lemma nth_opt_eq_Some: "nth_opt xs i = Some x \<longleftrightarrow> i < length xs \<and> xs ! i = x"
  by (auto simp: nth_opt_def)

subsection \<open>The two searches within a node\<close>

declare findKeyPosition_loop.simps [simp del]

lemma filter_count_prefix:
  assumes "p \<le> length ks" "\<forall>j < p. P (ks ! j)" "\<forall>j. p \<le> j \<longrightarrow> j < length ks \<longrightarrow> \<not> P (ks ! j)"
  shows "length (filter P ks) = p"
proof -
  have "filter P (take p ks) = take p ks"
    using assms(1,2) by (auto simp: filter_id_conv in_set_conv_nth)
  moreover have "filter P (drop p ks) = []"
    using assms(1,3) by (auto simp: filter_empty_conv in_set_conv_nth)
  moreover have "filter P ks = filter P (take p ks) @ filter P (drop p ks)"
    by (metis append_take_drop_id filter_append)
  ultimately have "filter P ks = take p ks" by simp
  then show ?thesis using assms(1) by simp
qed

lemma strict_sorted_nth_less:
  "sorted_wrt (<) (ks::('k::linorder) list) \<Longrightarrow> i < j \<Longrightarrow> j < length ks \<Longrightarrow> ks ! i < ks ! j"
  by (rule sorted_wrt_nth_less)

lemma strict_sorted_nth_le:
  assumes "sorted_wrt (<) (ks::('k::linorder) list)" "i \<le> j" "j < length ks"
  shows "ks ! i \<le> ks ! j"
proof (cases "i = j")
  case True
  then show ?thesis by simp
next
  case False
  with assms have "i < j" by simp
  with assms have "ks ! i < ks ! j" by (intro strict_sorted_nth_less)
  then show ?thesis by simp
qed

lemma findKeyPosition_loop_correct:
  "sorted_wrt (<) ks \<Longrightarrow> 0 \<le> left \<Longrightarrow> right < int (length ks) \<Longrightarrow> left \<le> right + 1 \<Longrightarrow> result = nat (right + 1) \<Longrightarrow>
         (\<forall>j. j < nat left \<longrightarrow> ks ! j < key) \<Longrightarrow>
         (\<forall>j. nat (right + 1) \<le> j \<longrightarrow> j < length ks \<longrightarrow> key < ks ! j) \<Longrightarrow>
         findKeyPosition_loop ks key left right result = pos_of ks key"
proof (induction ks key left right result rule: findKeyPosition_loop.induct)
  case (1 ks key left right result)
  note sorted = \<open>sorted_wrt (<) ks\<close>
  show ?case
  proof (cases "left \<le> right")
    case False
    with "1.prems" have lr: "left = right + 1" by simp
    have "pos_of ks key = nat left"
      unfolding pos_of_def
      using "1.prems" lr by (intro filter_count_prefix) auto
    with False "1.prems" lr show ?thesis by (subst findKeyPosition_loop.simps) simp
  next
    case True
    define mid where "mid = left + (right - left) div 2"
    have mid: "left \<le> mid" "mid \<le> right" using True by (auto simp: mid_def)
    then have midn: "nat mid < length ks" "0 \<le> mid" using "1.prems" by auto
    consider (eq) "ks ! nat mid = key" | (lt) "ks ! nat mid < key" | (gt) "key < ks ! nat mid"
      by (metis not_less_iff_gr_or_eq)
    then show ?thesis
    proof cases
      case eq
      have "pos_of ks key = nat mid"
        unfolding pos_of_def
      proof (intro filter_count_prefix)
        show "nat mid \<le> length ks" using midn by simp
        show "\<forall>j<nat mid. ks ! j < key"
          using sorted midn eq by (auto intro: strict_sorted_nth_less)
        show "\<forall>j\<ge>nat mid. j < length ks \<longrightarrow> \<not> ks ! j < key"
        proof (intro allI impI)
          fix j assume "nat mid \<le> j" "j < length ks"
          then have "ks ! nat mid \<le> ks ! j"
            using sorted by (intro strict_sorted_nth_le)
          with eq show "\<not> ks ! j < key" by simp
        qed
      qed
      with True eq show ?thesis
        by (subst findKeyPosition_loop.simps) (simp add: mid_def Let_def)
    next
      case lt
      have "findKeyPosition_loop ks key (mid + 1) right result = pos_of ks key"
      proof (rule "1.IH"(1)[OF True mid_def])
        show "sorted_wrt (<) ks" by (rule sorted)
        show "ks ! nat mid \<noteq> key" using lt by simp
        show "ks ! nat mid < key" by (rule lt)
        show "0 \<le> mid + 1" using midn by simp
        show "right < int (length ks)" using "1.prems" by simp
        show "mid + 1 \<le> right + 1" using mid by simp
        show "result = nat (right + 1)" using "1.prems" by simp
        show "\<forall>j<nat (mid + 1). ks ! j < key"
        proof (intro allI impI)
          fix j assume "j < nat (mid + 1)"
          then have "j \<le> nat mid" using midn by linarith
          then have "ks ! j \<le> ks ! nat mid"
            using sorted midn by (intro strict_sorted_nth_le)
          with lt show "ks ! j < key" by simp
        qed
        show "\<forall>j\<ge>nat (right + 1). j < length ks \<longrightarrow> key < ks ! j" using "1.prems" by simp
      qed
      moreover have "ks ! nat mid \<noteq> key" using lt by simp
      ultimately show ?thesis using True lt
        by (subst findKeyPosition_loop.simps) (simp add: mid_def Let_def)
    next
      case gt
      have "findKeyPosition_loop ks key left (mid - 1) (nat mid) = pos_of ks key"
      proof (rule "1.IH"(2)[OF True mid_def])
        show "sorted_wrt (<) ks" by (rule sorted)
        show "ks ! nat mid \<noteq> key" using gt by simp
        show "\<not> ks ! nat mid < key" using gt by simp
        show "0 \<le> left" using "1.prems" by simp
        show "mid - 1 < int (length ks)" using midn by simp
        show "left \<le> mid - 1 + 1" using mid by simp
        show "nat mid = nat (mid - 1 + 1)" by simp
        show "\<forall>j<nat left. ks ! j < key" using "1.prems" by simp
        show "\<forall>j\<ge>nat (mid - 1 + 1). j < length ks \<longrightarrow> key < ks ! j"
        proof (intro allI impI)
          fix j assume "nat (mid - 1 + 1) \<le> j" "j < length ks"
          then have "nat mid \<le> j" by simp
          then have "ks ! nat mid \<le> ks ! j"
            using sorted \<open>j < length ks\<close> by (intro strict_sorted_nth_le)
          with gt show "key < ks ! j" by simp
        qed
      qed
      moreover have "ks ! nat mid \<noteq> key" "\<not> ks ! nat mid < key" using gt by auto
      ultimately show ?thesis using True
        by (subst findKeyPosition_loop.simps) (simp add: mid_def Let_def)
    qed
  qed
qed

lemma findKeyPosition_pos_of:
  "sorted_wrt (<) ks \<Longrightarrow> findKeyPosition_loop ks key 0 (int (length ks) - 1) (length ks) = pos_of ks key"
  by (rule findKeyPosition_loop_correct) auto

lemma pos_of_le: "pos_of ks key \<le> length ks"
  by (simp add: pos_of_def)

lemma pos_of_sorted:
  assumes "sorted_wrt (<) ks"
  shows "take (pos_of ks key) ks = filter (\<lambda>x. x < key) ks"
    and "drop (pos_of ks key) ks = filter (\<lambda>x. \<not> x < key) ks"
  using assms
proof (induction ks)
  case Nil
  { case 1 show ?case by (simp add: pos_of_def) }
  { case 2 show ?case by (simp add: pos_of_def) }
next
  case (Cons x xs)
  { case 1
    then have s: "sorted_wrt (<) xs" and lt: "\<forall>y\<in>set xs. x < y" by auto
    show ?case
    proof (cases "x < key")
      case True
      then show ?thesis using Cons(1)[OF s] by (simp add: pos_of_def)
    next
      case False
      then have "filter (\<lambda>x. x < key) xs = []" using lt by (auto simp: filter_empty_conv)
      with False show ?thesis by (simp add: pos_of_def)
    qed }
  { case 2
    then have s: "sorted_wrt (<) xs" and lt: "\<forall>y\<in>set xs. x < y" by auto
    show ?case
    proof (cases "x < key")
      case True
      then show ?thesis using Cons(2)[OF s] by (simp add: pos_of_def)
    next
      case False
      then have "filter (\<lambda>x. x < key) xs = []" "filter (\<lambda>x. \<not> x < key) xs = xs" using lt by (auto simp: filter_empty_conv filter_id_conv)
      with False show ?thesis by (simp add: pos_of_def)
    qed }
qed

lemma pos_of_nth_less: "sorted_wrt (<) ks \<Longrightarrow> j < pos_of ks key \<Longrightarrow> ks ! j < key"
proof -
  assume s: "sorted_wrt (<) ks" and j: "j < pos_of ks key"
  have "ks ! j = take (pos_of ks key) ks ! j" using j by simp
  also have "\<dots> \<in> set (take (pos_of ks key) ks)"
    using j pos_of_le[of ks key] by (intro nth_mem) simp
  finally have "ks ! j \<in> set (filter (\<lambda>x. x < key) ks)" using pos_of_sorted(1)[OF s] by simp
  then show ?thesis by simp
qed

lemma pos_of_nth_ge: "sorted_wrt (<) ks \<Longrightarrow> pos_of ks key \<le> j \<Longrightarrow> j < length ks \<Longrightarrow> key \<le> ks ! j"
proof -
  assume s: "sorted_wrt (<) ks" and j: "pos_of ks key \<le> j" "j < length ks"
  have "ks ! j = drop (pos_of ks key) ks ! (j - pos_of ks key)" using j by simp
  also have "\<dots> \<in> set (drop (pos_of ks key) ks)"
    using j by (intro nth_mem) simp
  finally have "ks ! j \<in> set (filter (\<lambda>x. \<not> x < key) ks)" using pos_of_sorted(2)[OF s] by simp
  then show ?thesis by (simp add: not_less)
qed

lemma pos_of_unique:
  assumes "sorted_wrt (<) ks" "p \<le> length ks" "\<forall>j < p. ks ! j < key" "\<forall>j. p \<le> j \<longrightarrow> j < length ks \<longrightarrow> key \<le> ks ! j"
  shows "pos_of ks key = p"
  unfolding pos_of_def using assms by (intro filter_count_prefix) auto

lemma findChildIndex_loop_le: "findChildIndex_loop ks key \<le> length ks"
  by (induction ks) auto

lemma findChildIndex_loop_below: "j < findChildIndex_loop ks key \<Longrightarrow> sorted_wrt (<) ks \<Longrightarrow> ks ! j \<le> key"
proof (induction ks arbitrary: j)
  case Nil
  then show ?case by simp
next
  case (Cons x xs)
  then show ?case by (cases j) (auto split: if_splits)
qed

lemma findChildIndex_loop_above:
  "findChildIndex_loop ks key < length ks \<Longrightarrow> key < ks ! findChildIndex_loop ks key"
  by (induction ks) auto

lemma findChildIndex_loop_unique:
  assumes "sorted_wrt (<) ks" "i \<le> length ks" "\<forall>j < i. ks ! j \<le> key" "i < length ks \<longrightarrow> key < ks ! i"
  shows "findChildIndex_loop ks key = i"
  using assms
proof (induction ks arbitrary: i)
  case Nil
  then show ?case by simp
next
  case (Cons x xs)
  show ?case
  proof (cases i)
    case 0
    with Cons.prems show ?thesis by auto
  next
    case (Suc i')
    with Cons.prems have "x \<le> key" by auto
    moreover have "findChildIndex_loop xs key = i'"
      using Cons.prems Suc by (intro Cons.IH) auto
    ultimately show ?thesis using Suc by simp
  qed
qed

section \<open>Order, balance and counts of the represented tree\<close>

lemma in_set_drop_nth:
  assumes "x \<in> set (drop n xs)"
  shows "\<exists>j. n \<le> j \<and> j < length xs \<and> x = xs ! j"
proof -
  from assms obtain i where i: "i < length xs - n" "x = drop n xs ! i"
    by (auto simp: in_set_conv_nth)
  then have "n \<le> n + i \<and> n + i < length xs \<and> x = xs ! (n + i)" by auto
  then show ?thesis by blast
qed

lemma in_set_take_nth:
  assumes "x \<in> set (take n xs)"
  shows "\<exists>j. j < n \<and> j < length xs \<and> x = xs ! j"
  using assms by (auto simp: in_set_conv_nth)

subsection \<open>Order within an internal node\<close>

lemma ordered_NdD:
  assumes "ordered (Nd a ks ts)"
  shows "sorted_wrt (<) ks"
    and "\<And>t. t \<in> set ts \<Longrightarrow> ordered t"
    and "\<And>i x. i < length ks \<Longrightarrow> x \<in> allkeys (ts ! i) \<Longrightarrow> x < ks ! i"
    and "\<And>i x. i < length ks \<Longrightarrow> x \<in> allkeys (ts ! Suc i) \<Longrightarrow> ks ! i \<le> x"
  using assms by auto

lemma ordered_NdI:
  assumes "sorted_wrt (<) ks" "\<And>t. t \<in> set ts \<Longrightarrow> ordered t"
    and "\<And>i x. i < length ks \<Longrightarrow> x \<in> allkeys (ts ! i) \<Longrightarrow> x < ks ! i"
    and "\<And>i x. i < length ks \<Longrightarrow> x \<in> allkeys (ts ! Suc i) \<Longrightarrow> ks ! i \<le> x"
  shows "ordered (Nd a ks ts)"
  using assms by auto

lemma ordered_below:
  assumes "ordered (Nd a ks ts)" "j \<le> m" "m < length ks" "x \<in> allkeys (ts ! j)"
  shows "x < ks ! m"
proof -
  have "x < ks ! j" using assms by (intro ordered_NdD(3)[OF assms(1)]) auto
  also have "ks ! j \<le> ks ! m"
    using assms ordered_NdD(1)[OF assms(1)] by (intro strict_sorted_nth_le) auto
  finally show ?thesis .
qed

lemma ordered_above:
  assumes "ordered (Nd a ks ts)" "m < j" "j \<le> length ks" "x \<in> allkeys (ts ! j)"
  shows "ks ! m \<le> x"
proof -
  obtain j' where j': "j = Suc j'" using assms(2) by (cases j) auto
  have "ks ! m \<le> ks ! j'"
    using assms j' ordered_NdD(1)[OF assms(1)] by (intro strict_sorted_nth_le) auto
  also have "ks ! j' \<le> x" using assms j' by (intro ordered_NdD(4)[OF assms(1)]) auto
  finally show ?thesis .
qed

text \<open>The child that \<open>findChildIndex\<close> selects for \<open>k\<close> is the only one whose
  range contains \<open>k\<close>.\<close>

lemma child_index_bounds:
  assumes "sorted_wrt (<) ks" "i = findChildIndex_loop ks k"
  shows "i \<le> length ks" and "\<And>j. j < i \<Longrightarrow> ks ! j \<le> k" and "i < length ks \<Longrightarrow> k < ks ! i"
  using assms findChildIndex_loop_le[of ks k] findChildIndex_loop_below[of _ ks k]
    findChildIndex_loop_above[of ks k] by auto

lemma key_not_in_other_child:
  assumes "ordered (Nd a ks ts)" "length ts = Suc (length ks)" "i = findChildIndex_loop ks k"
    "j < length ts" "j \<noteq> i"
  shows "k \<notin> allkeys (ts ! j)"
proof
  assume in_j: "k \<in> allkeys (ts ! j)"
  note b = child_index_bounds[OF ordered_NdD(1)[OF assms(1)] assms(3)]
  show False
  proof (cases "j < i")
    case True
    then have "j < length ks" using b(1) by simp
    then have "k < ks ! j" using in_j by (intro ordered_NdD(3)[OF assms(1)])
    moreover have "ks ! j \<le> k" using True by (rule b(2))
    ultimately show False by simp
  next
    case False
    then have lt: "i < j" using assms(5) by simp
    then have "i < length ks" using assms(2,4) by simp
    then have "k < ks ! i" by (rule b(3))
    moreover have "ks ! i \<le> k" using lt assms(2,4) in_j by (intro ordered_above[OF assms(1)]) auto
    ultimately show False by simp
  qed
qed

lemma ordered_Nd_replace:
  assumes o: "ordered (Nd a ks ts)" and len: "length ts = Suc (length ks)"
    and i: "i = findChildIndex_loop ks k"
    and c: "ordered c" "allkeys c \<subseteq> insert k (allkeys (ts ! i))"
  shows "ordered (Nd a ks (ts[i := c]))"
proof (rule ordered_NdI)
  note b = child_index_bounds[OF ordered_NdD(1)[OF o] i]
  have il: "i < length ts" using b(1) len by simp
  show "sorted_wrt (<) ks" by (rule ordered_NdD(1)[OF o])
  show "\<And>t. t \<in> set (ts[i := c]) \<Longrightarrow> ordered t"
    using ordered_NdD(2)[OF o] c(1) by (auto dest: set_update_subset_insert[THEN subsetD])
  show "\<And>j x. j < length ks \<Longrightarrow> x \<in> allkeys (ts[i := c] ! j) \<Longrightarrow> x < ks ! j"
  proof -
    fix j x assume j: "j < length ks" and x: "x \<in> allkeys (ts[i := c] ! j)"
    show "x < ks ! j"
    proof (cases "j = i")
      case True
      with x il have "x \<in> insert k (allkeys (ts ! i))" using c(2) by auto
      then show ?thesis using True j b(3) ordered_NdD(3)[OF o j] by auto
    next
      case False
      with x have "x \<in> allkeys (ts ! j)" by simp
      then show ?thesis by (rule ordered_NdD(3)[OF o j])
    qed
  qed
  show "\<And>j x. j < length ks \<Longrightarrow> x \<in> allkeys (ts[i := c] ! Suc j) \<Longrightarrow> ks ! j \<le> x"
  proof -
    fix j x assume j: "j < length ks" and x: "x \<in> allkeys (ts[i := c] ! Suc j)"
    show "ks ! j \<le> x"
    proof (cases "Suc j = i")
      case True
      with x il have "x \<in> insert k (allkeys (ts ! i))" using c(2) by auto
      then show ?thesis using True j b(2)[of j] ordered_NdD(4)[OF o j] by auto
    next
      case False
      with x have "x \<in> allkeys (ts ! Suc j)" by simp
      then show ?thesis by (rule ordered_NdD(4)[OF o j])
    qed
  qed
qed

lemma sorted_wrt_insert_at:
  assumes "sorted_wrt (<) (ks::('k::linorder) list)" "i \<le> length ks"
    "\<And>j. j < i \<Longrightarrow> ks ! j < x" "\<And>j. i \<le> j \<Longrightarrow> j < length ks \<Longrightarrow> x < ks ! j"
  shows "sorted_wrt (<) (insert_at i x ks)"
proof -
  have 1: "sorted_wrt (<) (take i ks)" "sorted_wrt (<) (drop i ks)"
    using assms(1) by (auto intro: sorted_wrt_take sorted_wrt_drop)
  have 2: "\<forall>y\<in>set (take i ks). y < x"
    using assms(2,3) by (auto simp: in_set_conv_nth)
  have 3: "\<forall>y\<in>set (drop i ks). x < y"
    using assms(2,4) by (auto simp: in_set_conv_nth)
  have 4: "\<forall>y\<in>set (take i ks). \<forall>z\<in>set (drop i ks). y < z"
    using 2 3 by (meson less_trans)
  show ?thesis
    unfolding insert_at_def using 1 2 3 4 by (auto simp: sorted_wrt_append)
qed

lemma ordered_Nd_insert:
  assumes o: "ordered (Nd a ks ts)" and len: "length ts = Suc (length ks)"
    and i: "i = findChildIndex_loop ks k"
    and l: "ordered l" and r: "ordered r"
    and sub: "allkeys l \<union> allkeys r \<union> {sep} \<subseteq> insert k (allkeys (ts ! i))"
    and lsep: "\<forall>x\<in>allkeys l. x < sep" and rsep: "\<forall>x\<in>allkeys r. sep \<le> x"
    and ne: "allkeys l \<noteq> {}"
  shows "ordered (Nd a (insert_at i sep ks) (insert_at (Suc i) r (ts[i := l])))"
proof (rule ordered_NdI)
  note s = ordered_NdD(1)[OF o]
  note b = child_index_bounds[OF s i]
  have il: "i < length ts" "i \<le> length ks" using b(1) len by auto
  have in_range: "\<And>x. x \<in> insert k (allkeys (ts ! i)) \<Longrightarrow> (\<forall>j<i. ks ! j \<le> x) \<and> (\<forall>j. i \<le> j \<longrightarrow> j < length ks \<longrightarrow> x < ks ! j)"
  proof -
    fix x assume "x \<in> insert k (allkeys (ts ! i))"
    then consider "x = k" | "x \<in> allkeys (ts ! i)" by auto
    then show "(\<forall>j<i. ks ! j \<le> x) \<and> (\<forall>j. i \<le> j \<longrightarrow> j < length ks \<longrightarrow> x < ks ! j)"
    proof cases
      case 1
      have "\<And>j. i \<le> j \<Longrightarrow> j < length ks \<Longrightarrow> k < ks ! j"
      proof -
        fix j assume j: "i \<le> j" "j < length ks"
        then have "k < ks ! i" using b(3) by simp
        also have "ks ! i \<le> ks ! j" using j s by (intro strict_sorted_nth_le)
        finally show "k < ks ! j" .
      qed
      with 1 b(2) show ?thesis by auto
    next
      case 2
      then show ?thesis
        using ordered_below[OF o _ _ 2] ordered_above[OF o _ _ 2] il by auto
    qed
  qed
  obtain y where y: "y \<in> allkeys l" using ne by auto
  have ysep: "y < sep" using y lsep by simp
  have sep_in: "sep \<in> insert k (allkeys (ts ! i))" "y \<in> insert k (allkeys (ts ! i))"
    using sub y by auto
  have sep_lo: "\<And>j. j < i \<Longrightarrow> ks ! j < sep"
    using in_range[OF sep_in(2)] ysep by (meson le_less_trans)
  have sep_hi: "\<And>j. i \<le> j \<Longrightarrow> j < length ks \<Longrightarrow> sep < ks ! j"
    using in_range[OF sep_in(1)] by simp
  show "sorted_wrt (<) (insert_at i sep ks)"
    using s il(2) sep_lo sep_hi by (rule sorted_wrt_insert_at)
  let ?ts = "insert_at (Suc i) r (ts[i := l])"
  let ?ks = "insert_at i sep ks"
  show "\<And>t. t \<in> set ?ts \<Longrightarrow> ordered t"
    using ordered_NdD(2)[OF o] l r by (auto dest: set_update_subset_insert[THEN subsetD])
  have nth_ts: "\<And>j. ?ts ! j = (if j < i then ts ! j else if j = i then l else if j = Suc i then r else ts ! (j - 1))"
    using il len by (auto simp: nth_insert_at)
  have nth_ks: "\<And>j. ?ks ! j = (if j < i then ks ! j else if j = i then sep else ks ! (j - 1))"
    using il by (auto simp: nth_insert_at)
  have lsub: "\<And>x. x \<in> allkeys l \<Longrightarrow> x \<in> insert k (allkeys (ts ! i))"
    and rsub: "\<And>x. x \<in> allkeys r \<Longrightarrow> x \<in> insert k (allkeys (ts ! i))" using sub by auto
  show "\<And>j x. j < length ?ks \<Longrightarrow> x \<in> allkeys (?ts ! j) \<Longrightarrow> x < ?ks ! j"
  proof -
    fix j x assume j: "j < length ?ks" and x: "x \<in> allkeys (?ts ! j)"
    consider "j < i" | "j = i" | "j = Suc i" | "Suc i < j" by linarith
    then show "x < ?ks ! j"
    proof cases
      case 1
      then show ?thesis using x il ordered_NdD(3)[OF o, of j x] by (simp add: nth_ts nth_ks)
    next
      case 2
      then show ?thesis using x lsep by (simp add: nth_ts nth_ks)
    next
      case 3
      then have "x \<in> allkeys r" using x by (simp add: nth_ts)
      then have "x < ks ! i" using in_range[OF rsub] j 3 by simp
      then show ?thesis using 3 by (simp add: nth_ks)
    next
      case 4
      then have "x \<in> allkeys (ts ! (j - 1))" using x by (simp add: nth_ts)
      then have "x < ks ! (j - 1)" using j 4 by (intro ordered_NdD(3)[OF o]) auto
      then show ?thesis using 4 by (simp add: nth_ks)
    qed
  qed
  show "\<And>j x. j < length ?ks \<Longrightarrow> x \<in> allkeys (?ts ! Suc j) \<Longrightarrow> ?ks ! j \<le> x"
  proof -
    fix j x assume j: "j < length ?ks" and x: "x \<in> allkeys (?ts ! Suc j)"
    consider "Suc j < i" | "Suc j = i" | "j = i" | "i < j" by linarith
    then show "?ks ! j \<le> x"
    proof cases
      case 1
      then show ?thesis using x il ordered_NdD(4)[OF o, of j x] by (simp add: nth_ts nth_ks)
    next
      case 2
      then have "x \<in> allkeys l" using x by (simp add: nth_ts)
      then have "ks ! j \<le> x" using in_range[OF lsub] 2 by simp
      then show ?thesis using 2 by (simp add: nth_ks)
    next
      case 3
      then show ?thesis using x rsep by (simp add: nth_ts nth_ks)
    next
      case 4
      then have "x \<in> allkeys (ts ! j)" using x by (simp add: nth_ts)
      moreover obtain j' where j': "j = Suc j'" using 4 by (cases j) auto
      ultimately have "ks ! j' \<le> x" using j by (intro ordered_NdD(4)[OF o]) auto
      then show ?thesis using 4 j' by (simp add: nth_ks)
    qed
  qed
qed

lemma allkeys_Nd_nth: "i < length ts \<Longrightarrow> x \<in> allkeys (ts ! i) \<Longrightarrow> x \<in> allkeys (Nd a ks ts)"
  by (auto intro: bexI[of _ "ts ! i"])

lemma ordered_Nd_split:
  assumes o: "ordered (Nd a ks ts)" and len: "length ts = Suc (length ks)" and sp: "sp < length ks"
  shows "ordered (Nd a (take sp ks) (take (Suc sp) ts))"
    and "ordered (Nd b (drop (Suc sp) ks) (drop (Suc sp) ts))"
    and "\<forall>x\<in>allkeys (Nd a (take sp ks) (take (Suc sp) ts)). x < ks ! sp"
    and "\<forall>x\<in>allkeys (Nd b (drop (Suc sp) ks) (drop (Suc sp) ts)). ks ! sp \<le> x"
proof -
  note s = ordered_NdD(1)[OF o]
  show "ordered (Nd a (take sp ks) (take (Suc sp) ts))"
  proof (rule ordered_NdI)
    show "sorted_wrt (<) (take sp ks)" using s by (rule sorted_wrt_take)
    show "\<And>t. t \<in> set (take (Suc sp) ts) \<Longrightarrow> ordered t"
      using ordered_NdD(2)[OF o] by (auto dest: in_set_takeD)
    show "\<And>i x. i < length (take sp ks) \<Longrightarrow> x \<in> allkeys (take (Suc sp) ts ! i) \<Longrightarrow> x < take sp ks ! i"
      using ordered_NdD(3)[OF o] by simp
    show "\<And>i x. i < length (take sp ks) \<Longrightarrow> x \<in> allkeys (take (Suc sp) ts ! Suc i) \<Longrightarrow> take sp ks ! i \<le> x"
      using ordered_NdD(4)[OF o] by simp
  qed
  show "ordered (Nd b (drop (Suc sp) ks) (drop (Suc sp) ts))"
  proof (rule ordered_NdI)
    show "sorted_wrt (<) (drop (Suc sp) ks)" using s by (rule sorted_wrt_drop)
    show "\<And>t. t \<in> set (drop (Suc sp) ts) \<Longrightarrow> ordered t"
      using ordered_NdD(2)[OF o] by (auto dest: in_set_dropD)
    show "\<And>i x. i < length (drop (Suc sp) ks) \<Longrightarrow> x \<in> allkeys (drop (Suc sp) ts ! i) \<Longrightarrow> x < drop (Suc sp) ks ! i"
      using ordered_NdD(3)[OF o] len sp by simp
    show "\<And>i x. i < length (drop (Suc sp) ks) \<Longrightarrow> x \<in> allkeys (drop (Suc sp) ts ! Suc i) \<Longrightarrow> drop (Suc sp) ks ! i \<le> x"
      using ordered_NdD(4)[OF o] len sp by simp
  qed
  show "\<forall>x\<in>allkeys (Nd a (take sp ks) (take (Suc sp) ts)). x < ks ! sp"
  proof
    fix x assume "x \<in> allkeys (Nd a (take sp ks) (take (Suc sp) ts))"
    then consider "x \<in> set (take sp ks)" | t where "t \<in> set (take (Suc sp) ts)" "x \<in> allkeys t" by auto
    then show "x < ks ! sp"
    proof cases
      case 1
      then obtain j where "j < sp" "x = ks ! j" using sp by (auto simp: in_set_conv_nth)
      then show ?thesis using s sp by (auto intro: strict_sorted_nth_less)
    next
      case 2
      then obtain j where "j \<le> sp" "t = ts ! j" using sp len by (auto simp: in_set_conv_nth less_Suc_eq_le)
      then show ?thesis using 2 sp by (auto intro: ordered_below[OF o])
    qed
  qed
  show "\<forall>x\<in>allkeys (Nd b (drop (Suc sp) ks) (drop (Suc sp) ts)). ks ! sp \<le> x"
  proof
    fix x assume "x \<in> allkeys (Nd b (drop (Suc sp) ks) (drop (Suc sp) ts))"
    then consider "x \<in> set (drop (Suc sp) ks)" | t where "t \<in> set (drop (Suc sp) ts)" "x \<in> allkeys t" by auto
    then show "ks ! sp \<le> x"
    proof cases
      case 1
      then obtain j where "sp < j" "j < length ks" "x = ks ! j" by (auto dest!: in_set_drop_nth simp: Suc_le_eq)
      then show ?thesis using s by (auto intro: strict_sorted_nth_le)
    next
      case 2
      then obtain j where "sp < j" "j \<le> length ks" "t = ts ! j" using len by (auto dest!: in_set_drop_nth simp: Suc_le_eq less_Suc_eq_le)
      then show ?thesis using 2 by (auto intro: ordered_above[OF o])
    qed
  qed
qed

subsection \<open>Insertion on the represented tree\<close>

lemma splitPoint_bounds: "1 \<le> mx \<Longrightarrow> 1 \<le> splitPoint mx \<and> splitPoint mx \<le> mx"
  by (auto simp: splitPoint_def)

lemma leaf_ins_cases:
  assumes "sorted_wrt (<) ks"
  obtains (upd) "pos_of ks k < length ks" "ks ! pos_of ks k = k"
      "leaf_ins mx f k v a ks vs = (TI (Lf a ks (vs[pos_of ks k := v])), f)"
  | (new) "k \<notin> set ks" "length ks < mx"
      "leaf_ins mx f k v a ks vs = (TI (Lf a (insert_at (pos_of ks k) k ks) (insert_at (pos_of ks k) v vs)), f)"
  | (split) "k \<notin> set ks" "mx \<le> length ks"
      "leaf_ins mx f k v a ks vs =
         (UpI (Lf a (take (splitPoint mx) (insert_at (pos_of ks k) k ks))
                    (take (splitPoint mx) (insert_at (pos_of ks k) v vs)))
              (insert_at (pos_of ks k) k ks ! splitPoint mx)
              (Lf f (drop (splitPoint mx) (insert_at (pos_of ks k) k ks))
                    (drop (splitPoint mx) (insert_at (pos_of ks k) v vs))), Suc f)"
proof -
  let ?p = "pos_of ks k"
  have p: "findKeyPosition_loop ks k 0 (int (length ks) - 1) (length ks) = ?p"
    using assms by (rule findKeyPosition_pos_of)
  show thesis
  proof (cases "?p < length ks \<and> ks ! ?p = k")
    case True
    then show ?thesis using p by (intro upd) (auto simp: leaf_ins_def)
  next
    case False
    have notin: "k \<notin> set ks"
    proof
      assume "k \<in> set ks"
      then obtain j where j: "j < length ks" "ks ! j = k" by (auto simp: in_set_conv_nth)
      have "\<not> j < ?p" using pos_of_nth_less[OF assms, of j k] j by auto
      then have "?p \<le> j" by simp
      moreover have "\<not> ?p < j"
      proof
        assume "?p < j"
        then have "ks ! ?p < ks ! j" using assms j by (intro strict_sorted_nth_less)
        moreover have "k \<le> ks ! ?p" using \<open>?p < j\<close> j assms by (intro pos_of_nth_ge) auto
        ultimately show False using j by simp
      qed
      ultimately have "?p = j" by simp
      with j False show False by simp
    qed
    show ?thesis
    proof (cases "length ks < mx")
      case True
      then show ?thesis using False p notin by (intro new) (auto simp: leaf_ins_def Let_def)
    next
      case False
      then show ?thesis using \<open>\<not> (?p < length ks \<and> ks ! ?p = k)\<close> p notin
        by (intro split) (auto simp: leaf_ins_def Let_def)
    qed
  qed
qed

lemma sorted_insert_at_pos:
  assumes "sorted_wrt (<) ks" "k \<notin> set ks"
  shows "sorted_wrt (<) (insert_at (pos_of ks k) k ks)"
proof (rule sorted_wrt_insert_at[OF assms(1) pos_of_le])
  show "\<And>j. j < pos_of ks k \<Longrightarrow> ks ! j < k" using assms(1) by (rule pos_of_nth_less)
  show "\<And>j. pos_of ks k \<le> j \<Longrightarrow> j < length ks \<Longrightarrow> k < ks ! j"
  proof -
    fix j assume j: "pos_of ks k \<le> j" "j < length ks"
    then have "k \<le> ks ! j" using assms(1) by (intro pos_of_nth_ge)
    moreover have "ks ! j \<noteq> k" using assms(2) j by (metis nth_mem)
    ultimately show "k < ks ! j" by simp
  qed
qed

lemma sorted_split_nth:
  assumes "sorted_wrt (<) (ks::('k::linorder) list)" "sp < length ks"
  shows "\<forall>x\<in>set (take sp ks). x < ks ! sp" and "\<forall>x\<in>set (drop sp ks). ks ! sp \<le> x"
proof -
  show "\<forall>x\<in>set (take sp ks). x < ks ! sp"
    using assms by (auto dest!: in_set_take_nth intro: strict_sorted_nth_less)
  show "\<forall>x\<in>set (drop sp ks). ks ! sp \<le> x"
    using assms by (auto dest!: in_set_drop_nth intro: strict_sorted_nth_le)
qed

lemma set_take_drop_subset: "set (take n xs) \<subseteq> set xs" "set (drop n xs) \<subseteq> set xs"
  by (auto dest: in_set_takeD in_set_dropD)

lemma leaf_ins_ordered:
  assumes "sorted_wrt (<) ks" "1 \<le> mx"
  shows "up_ordered (fst (leaf_ins mx f k v a ks vs))"
  using assms(1)
proof (cases rule: leaf_ins_cases[where k = k and mx = mx and f = f and v = v and a = a and vs = vs])
  case upd
  then show ?thesis using assms by simp
next
  case new
  then show ?thesis using assms by (simp add: sorted_insert_at_pos)
next
  case split
  let ?ks = "insert_at (pos_of ks k) k ks"
  have s: "sorted_wrt (<) ?ks" using assms split by (simp add: sorted_insert_at_pos)
  have sp: "splitPoint mx < length ?ks" "1 \<le> splitPoint mx"
    using split(2) splitPoint_bounds[OF assms(2)] by auto
  have "take (splitPoint mx) ?ks \<noteq> []" using sp by (auto simp: insert_at_def)
  then show ?thesis
    using split(3) s sorted_split_nth[OF s sp(1)]
    by (auto intro: sorted_wrt_take sorted_wrt_drop)
qed

lemma leaf_ins_keys:
  assumes "sorted_wrt (<) ks" "1 \<le> mx"
  shows "up_keys (fst (leaf_ins mx f k v a ks vs)) \<subseteq> insert k (set ks)"
  using assms(1)
proof (cases rule: leaf_ins_cases[where k = k and mx = mx and f = f and v = v and a = a and vs = vs])
  case upd
  then show ?thesis by auto
next
  case new
  then show ?thesis by auto
next
  case split
  let ?ks = "insert_at (pos_of ks k) k ks"
  have sp: "splitPoint mx < length ?ks"
    using split(2) splitPoint_bounds[OF assms(2)] by auto
  then have "?ks ! splitPoint mx \<in> set ?ks" by (rule nth_mem)
  then show ?thesis
    using split(3) set_take_drop_subset[of "splitPoint mx" ?ks] by auto
qed

lemma node_ins_ordered:
  assumes o: "ordered (Nd a ks ts)" and len: "length ts = Suc (length ks)"
    and i: "i = findChildIndex_loop ks k"
    and u: "up_ordered (UpI l sep r)"
    and sub: "up_keys (UpI l sep r) \<subseteq> insert k (allkeys (ts ! i))"
    and mx: "1 \<le> mx"
  shows "up_ordered (fst (node_ins mx f a ks ts i l sep r))"
proof -
  let ?ks = "insert_at i sep ks"
  let ?ts = "insert_at (Suc i) r (ts[i := l])"
  have oo: "ordered (Nd a ?ks ?ts)"
    using o len i u sub by (intro ordered_Nd_insert[where k = k]) auto
  show ?thesis
  proof (cases "length ?ks > mx")
    case False
    then show ?thesis using oo by (simp add: node_ins_def Let_def)
  next
    case True
    have sp: "splitPoint mx < length ?ks" "1 \<le> splitPoint mx"
      using True splitPoint_bounds[OF mx] by auto
    have len': "length ?ts = Suc (length ?ks)" using len by simp
    have "?ks ! 0 \<in> allkeys (Nd a (take (splitPoint mx) ?ks) (take (Suc (splitPoint mx)) ?ts))"
      using sp by (auto simp: in_set_conv_nth intro!: exI[of _ 0])
    then have ne: "allkeys (Nd a (take (splitPoint mx) ?ks) (take (Suc (splitPoint mx)) ?ts)) \<noteq> {}"
      by blast
    show ?thesis
      using True ordered_Nd_split[OF oo len' sp(1)] ne
      by (simp add: node_ins_def Let_def del: allkeys.simps ordered.simps)
  qed
qed

lemma node_ins_keys:
  assumes len: "length ts = Suc (length ks)" and i: "i \<le> length ks" and mx: "1 \<le> mx"
  shows "up_keys (fst (node_ins mx f a ks ts i l sep r)) \<subseteq>
           set ks \<union> (\<Union>t\<in>set ts. allkeys t) \<union> up_keys (UpI l sep r)"
proof -
  let ?ks = "insert_at i sep ks"
  let ?ts = "insert_at (Suc i) r (ts[i := l])"
  have ts: "set ?ts \<subseteq> insert r (insert l (set ts))"
    using set_update_subset_insert[of ts i l] by auto
  show ?thesis
  proof (cases "length ?ks > mx")
    case False
    then show ?thesis using ts by (auto simp: node_ins_def Let_def)
  next
    case True
    have sp: "splitPoint mx < length ?ks"
      using True splitPoint_bounds[OF mx] by auto
    then have "?ks ! splitPoint mx \<in> set ?ks" by (rule nth_mem)
    moreover have "set (take (Suc (splitPoint mx)) ?ts) \<subseteq> insert r (insert l (set ts))"
      "set (drop (Suc (splitPoint mx)) ?ts) \<subseteq> insert r (insert l (set ts))"
      using ts set_take_drop_subset[of "Suc (splitPoint mx)" ?ts] by auto
    ultimately show ?thesis
      using True set_take_drop_subset[of "splitPoint mx" ?ks] set_take_drop_subset[of "Suc (splitPoint mx)" ?ks]
      by (auto simp: node_ins_def Let_def)
  qed
qed

lemma ins_ordered_keys:
  assumes "ordered t" "counts lo mn mx t" "1 \<le> mx"
  shows "up_ordered (fst (ins mx f k v t)) \<and> up_keys (fst (ins mx f k v t)) \<subseteq> insert k (allkeys t)"
  using assms
proof (induction mx f k v t arbitrary: lo rule: ins.induct)
  case (1 mx f k v a ks vs)
  then show ?case using leaf_ins_ordered[of ks mx f k v a vs] leaf_ins_keys[of ks mx f k v a vs] by simp
next
  case (2 mx f k v a ks ts)
  define i where "i = findChildIndex_loop ks k"
  have len: "length ts = Suc (length ks)" using "2.prems" by simp
  have s: "sorted_wrt (<) ks" using "2.prems" by simp
  have il: "i < length ts" "i \<le> length ks"
    using findChildIndex_loop_le[of ks k] len by (auto simp: i_def)
  then have mem: "ts ! i \<in> set ts" by simp
  have IH: "up_ordered (fst (ins mx f k v (ts ! i))) \<and> up_keys (fst (ins mx f k v (ts ! i))) \<subseteq> insert k (allkeys (ts ! i))"
    using "2.prems" mem il by (intro "2.IH"[OF i_def[symmetric, THEN sym], of mn]) (auto simp: i_def)
  obtain u f' where u: "ins mx f k v (ts ! i) = (u, f')" by (cases "ins mx f k v (ts ! i)")
  show ?case
  proof (cases u)
    case (TI c)
    then have r: "ins mx f k v (Nd a ks ts) = (TI (Nd a ks (ts[i := c])), f')"
      using u il by (simp add: i_def)
    have c: "ordered c" "allkeys c \<subseteq> insert k (allkeys (ts ! i))" using IH u TI by auto
    have "ordered (Nd a ks (ts[i := c]))"
      using "2.prems"(1) len i_def c by (rule ordered_Nd_replace)
    moreover have "allkeys (Nd a ks (ts[i := c])) \<subseteq> insert k (allkeys (Nd a ks ts))"
    proof -
      have "set (ts[i := c]) \<subseteq> insert c (set ts)" by (rule set_update_subset_insert)
      then show ?thesis using c(2) mem by auto
    qed
    ultimately show ?thesis using r by (simp del: ordered.simps allkeys.simps)
  next
    case (UpI l sep r)
    then have res: "ins mx f k v (Nd a ks ts) = node_ins mx f' a ks ts i l sep r"
      using u il by (simp add: i_def)
    have uo: "up_ordered (UpI l sep r)" and uk: "up_keys (UpI l sep r) \<subseteq> insert k (allkeys (ts ! i))"
      using IH u UpI by auto
    have "up_ordered (fst (node_ins mx f' a ks ts i l sep r))"
      using "2.prems"(1) len i_def uo uk "2.prems"(3) by (rule node_ins_ordered)
    moreover have "up_keys (fst (node_ins mx f' a ks ts i l sep r)) \<subseteq> insert k (allkeys (Nd a ks ts))"
      using node_ins_keys[OF len il(2) "2.prems"(3), of f' a l sep r] uk mem by auto
    ultimately show ?thesis using res by simp
  qed
qed

lemma upd_take_drop: "i < length ts \<Longrightarrow> ts[i := c] = take i ts @ c # drop (Suc i) ts"
  by (rule upd_conv_take_nth_drop)

lemma ins_take_drop:
  "i < length ts \<Longrightarrow> insert_at (Suc i) r (ts[i := l]) = take i ts @ l # r # drop (Suc i) ts"
  by (simp add: insert_at_def upd_conv_take_nth_drop)

lemma id_take_drop: "i < length ts \<Longrightarrow> ts = take i ts @ ts ! i # drop (Suc i) ts"
  by (rule id_take_nth_drop)

lemma concat_map_take_drop:
  "i < length ts \<Longrightarrow> concat (map g ts) = concat (map g (take i ts)) @ g (ts ! i) @ concat (map g (drop (Suc i) ts))"
  by (subst id_take_drop[of i ts]) (simp_all del: append_take_drop_id)

text \<open>The result of \<open>node_ins\<close>, with the children list spelled out.\<close>

lemma node_ins_cases:
  assumes "i < length ts" "length ts = Suc (length ks)" "1 \<le> mx"
  obtains (fit) "length ks < mx"
      "node_ins mx f a ks ts i l sep r =
         (TI (Nd a (insert_at i sep ks) (take i ts @ l # r # drop (Suc i) ts)), f)"
  | (split) ks1 ts1 ks2 ts2 where "mx \<le> length ks"
      "node_ins mx f a ks ts i l sep r =
         (UpI (Nd a ks1 ts1) (insert_at i sep ks ! splitPoint mx) (Nd f ks2 ts2), Suc f)"
      "ts1 @ ts2 = take i ts @ l # r # drop (Suc i) ts"
      "ks1 @ insert_at i sep ks ! splitPoint mx # ks2 = insert_at i sep ks"
      "length ks1 = splitPoint mx" "length ts1 = Suc (splitPoint mx)"
      "length ts2 = Suc (length ks2)"
proof (cases "length ks < mx")
  case True
  then show ?thesis using assms by (intro fit) (auto simp: node_ins_def Let_def ins_take_drop)
next
  case False
  let ?ks = "insert_at i sep ks"
  let ?ts = "insert_at (Suc i) r (ts[i := l])"
  let ?sp = "splitPoint mx"
  have sp: "?sp < length ?ks" "?sp \<le> mx" using False splitPoint_bounds[OF assms(3)] by auto
  show ?thesis
  proof (rule split[of "take ?sp ?ks" "take (Suc ?sp) ?ts" "drop (Suc ?sp) ?ks" "drop (Suc ?sp) ?ts"])
    show "mx \<le> length ks" using False by simp
    show "node_ins mx f a ks ts i l sep r =
      (UpI (Nd a (take ?sp ?ks) (take (Suc ?sp) ?ts)) (?ks ! ?sp) (Nd f (drop (Suc ?sp) ?ks) (drop (Suc ?sp) ?ts)), Suc f)"
      using False by (simp add: node_ins_def Let_def)
    show "take (Suc ?sp) ?ts @ drop (Suc ?sp) ?ts = take i ts @ l # r # drop (Suc i) ts"
      by (subst append_take_drop_id) (rule ins_take_drop[OF assms(1)])
    show "take ?sp ?ks @ ?ks ! ?sp # drop (Suc ?sp) ?ks = ?ks"
      using sp by (simp add: id_take_nth_drop[symmetric])
    show "length (take ?sp ?ks) = ?sp" using sp by simp
    show "length (take (Suc ?sp) ?ts) = Suc ?sp" using sp assms by simp
    show "length (drop (Suc ?sp) ?ts) = Suc (length (drop (Suc ?sp) ?ks))" using sp assms by simp
  qed
qed

subsection \<open>Balance\<close>

lemma bal_Nd_iff:
  "ts \<noteq> [] \<Longrightarrow> (bal (Nd a ks ts) \<and> bheight (Nd a ks ts) = Suc h) \<longleftrightarrow> (\<forall>t\<in>set ts. bal t \<and> bheight t = h)"
  by (cases ts) auto

lemma bal_NdD:
  assumes "bal (Nd a ks ts)" "t \<in> set ts"
  shows "bal t" and "Suc (bheight t) = bheight (Nd a ks ts)"
  using assms by (cases ts; auto)+

lemma ins_bal:
  assumes "bal t" "counts lo mn mx t" "1 \<le> mx"
  shows "\<forall>t'\<in>set (up_trees (fst (ins mx f k v t))). bal t' \<and> bheight t' = bheight t"
  using assms
proof (induction mx f k v t arbitrary: lo rule: ins.induct)
  case (1 mx f k v a ks vs)
  then show ?case by (auto simp: leaf_ins_def Let_def)
next
  case (2 mx f k v a ks ts)
  define i where "i = findChildIndex_loop ks k"
  have len: "length ts = Suc (length ks)" using "2.prems" by simp
  have il: "i < length ts" "i \<le> length ks"
    using findChildIndex_loop_le[of ks k] len by (auto simp: i_def)
  then have mem: "ts ! i \<in> set ts" by simp
  obtain h where h: "bheight (Nd a ks ts) = Suc h" by simp
  have ne: "ts \<noteq> []" using len by auto
  have all: "\<forall>t\<in>set ts. bal t \<and> bheight t = h"
    using bal_Nd_iff[OF ne, of a ks h] "2.prems"(1) h by simp
  have IH: "\<forall>t'\<in>set (up_trees (fst (ins mx f k v (ts ! i)))). bal t' \<and> bheight t' = h"
    using "2.IH"[OF i_def[symmetric, THEN sym] il(1), of mn] "2.prems" mem all by auto
  obtain u f' where u: "ins mx f k v (ts ! i) = (u, f')" by (cases "ins mx f k v (ts ! i)")
  show ?case
  proof (cases u)
    case (TI c)
    then have r: "ins mx f k v (Nd a ks ts) = (TI (Nd a ks (ts[i := c])), f')"
      using u il by (simp add: i_def)
    have "\<forall>t\<in>set (ts[i := c]). bal t \<and> bheight t = h"
      using all IH u TI by (auto dest: set_update_subset_insert[THEN subsetD])
    moreover have "ts[i := c] \<noteq> []" using ne by simp
    ultimately have "bal (Nd a ks (ts[i := c])) \<and> bheight (Nd a ks (ts[i := c])) = Suc h"
      using bal_Nd_iff by blast
    then show ?thesis using r h by (simp del: bal.simps bheight.simps)
  next
    case (UpI l sep r)
    then have res: "ins mx f k v (Nd a ks ts) = node_ins mx f' a ks ts i l sep r"
      using u il by (simp add: i_def)
    have lr: "bal l \<and> bheight l = h" "bal r \<and> bheight r = h" using IH u UpI by auto
    have all': "\<forall>t\<in>set (take i ts @ l # r # drop (Suc i) ts). bal t \<and> bheight t = h"
      using all lr by (auto dest: in_set_takeD in_set_dropD)
    show ?thesis
      using il(1) len "2.prems"(3)
    proof (cases rule: node_ins_cases[where f = f' and a = a and l = l and sep = sep and r = r])
      case fit
      have "bal (Nd a (insert_at i sep ks) (take i ts @ l # r # drop (Suc i) ts)) \<and>
            bheight (Nd a (insert_at i sep ks) (take i ts @ l # r # drop (Suc i) ts)) = Suc h"
        using all' by (subst bal_Nd_iff) auto
      then show ?thesis using res fit h by (simp del: bal.simps bheight.simps)
    next
      case (split ks1 ts1 ks2 ts2)
      have "\<forall>t\<in>set (ts1 @ ts2). bal t \<and> bheight t = h" using all' split(3) by simp
      then have 1: "\<forall>t\<in>set ts1. bal t \<and> bheight t = h" and 2: "\<forall>t\<in>set ts2. bal t \<and> bheight t = h" by auto
      have ne1: "ts1 \<noteq> []" "ts2 \<noteq> []" using split(6,7) by auto
      have "bal (Nd a ks1 ts1) \<and> bheight (Nd a ks1 ts1) = Suc h"
        using 1 ne1 bal_Nd_iff by blast
      moreover have "bal (Nd f' ks2 ts2) \<and> bheight (Nd f' ks2 ts2) = Suc h"
        using 2 ne1 bal_Nd_iff by blast
      ultimately show ?thesis using res split(2) h by (simp del: bal.simps bheight.simps)
    qed
  qed
qed

subsection \<open>Counts\<close>

lemma split_sizes:
  assumes "1 \<le> mx" "mn = mx div 2"
  shows "mn \<le> splitPoint mx" "splitPoint mx \<le> mx" "mn \<le> Suc mx - splitPoint mx"
    "Suc mx - splitPoint mx \<le> mx" "mn \<le> mx - splitPoint mx" "mx - splitPoint mx \<le> mx"
  using assms by (auto simp: splitPoint_def)

lemma counts_mono: "counts lo mn mx t \<Longrightarrow> lo' \<le> lo \<Longrightarrow> counts lo' mn mx t"
  by (cases t) auto

lemma ins_counts:
  assumes "ordered t" "counts lo mn mx t" "1 \<le> mx" "mn = mx div 2"
  shows "up_counts lo mn mx (fst (ins mx f k v t))"
  using assms
proof (induction mx f k v t arbitrary: lo rule: ins.induct)
  case (1 mx f k v a ks vs)
  then have s: "sorted_wrt (<) ks" by simp
  from s show ?case
  proof (cases rule: leaf_ins_cases[where k = k and mx = mx and f = f and v = v and a = a and vs = vs])
    case upd
    then show ?thesis using "1.prems" by simp
  next
    case new
    then show ?thesis using "1.prems" by simp
  next
    case split
    then have "length ks = mx" using "1.prems" by simp
    then show ?thesis using split(3) "1.prems" split_sizes[OF "1.prems"(3,4)] by (simp add: min_def)
  qed
next
  case (2 mx f k v a ks ts)
  define i where "i = findChildIndex_loop ks k"
  have len: "length ts = Suc (length ks)" using "2.prems" by simp
  have il: "i < length ts" "i \<le> length ks"
    using findChildIndex_loop_le[of ks k] len by (auto simp: i_def)
  then have mem: "ts ! i \<in> set ts" by simp
  have all: "\<forall>t\<in>set ts. counts mn mn mx t" using "2.prems" by simp
  have IH: "up_counts mn mn mx (fst (ins mx f k v (ts ! i)))"
    using "2.IH"[OF i_def[symmetric, THEN sym] il(1), of mn] "2.prems" mem by auto
  obtain u f' where u: "ins mx f k v (ts ! i) = (u, f')" by (cases "ins mx f k v (ts ! i)")
  show ?case
  proof (cases u)
    case (TI c)
    then have r: "ins mx f k v (Nd a ks ts) = (TI (Nd a ks (ts[i := c])), f')"
      using u il by (simp add: i_def)
    have "\<forall>t\<in>set (ts[i := c]). counts mn mn mx t"
      using all IH u TI by (auto dest: set_update_subset_insert[THEN subsetD])
    then show ?thesis using r "2.prems" by simp
  next
    case (UpI l sep r)
    then have res: "ins mx f k v (Nd a ks ts) = node_ins mx f' a ks ts i l sep r"
      using u il by (simp add: i_def)
    have lr: "counts mn mn mx l" "counts mn mn mx r" using IH u UpI by auto
    have all': "\<forall>t\<in>set (take i ts @ l # r # drop (Suc i) ts). counts mn mn mx t"
      using all lr by (auto dest: in_set_takeD in_set_dropD)
    show ?thesis
      using il(1) len "2.prems"(3)
    proof (cases rule: node_ins_cases[where f = f' and a = a and l = l and sep = sep and r = r])
      case fit
      then show ?thesis using res all' "2.prems" il len by simp
    next
      case (split ks1 ts1 ks2 ts2)
      have "\<forall>t\<in>set (ts1 @ ts2). counts mn mn mx t" using all' split(3) by simp
      then have 1: "\<forall>t\<in>set ts1. counts mn mn mx t" and 2: "\<forall>t\<in>set ts2. counts mn mn mx t" by auto
      have "length ks = mx" using split(1) "2.prems" by simp
      then have "length (ks1 @ insert_at i sep ks ! splitPoint mx # ks2) = Suc mx"
        using split(4) by simp
      then have "length ks2 = mx - splitPoint mx" using split(5) by simp
      then show ?thesis
        using res split(2,5,6,7) 1 2 split_sizes[OF "2.prems"(3,4)] by simp
    qed
  qed
qed

subsection \<open>Entries\<close>

lemma fst_entries_allkeys: "fst ` set (entries t) \<subseteq> allkeys t"
proof (induction t)
  case (Lf a ks vs)
  then show ?case by (auto dest: set_zip_leftD)
next
  case (Nd a ks ts)
  then show ?case by fastforce
qed

lemma zip_insert_at:
  "length vs = length ks \<Longrightarrow> zip (insert_at p k ks) (insert_at p v vs) = insert_at p (k, v) (zip ks vs)"
  by (simp add: insert_at_def take_zip drop_zip)

lemma zip_take_drop:
  "zip (take n ks) (take n vs) @ zip (drop n ks) (drop n vs) = zip ks vs"
  by (metis append_take_drop_id drop_zip take_zip)

lemma strict_sorted_distinct: "sorted_wrt (<) (ks::('k::linorder) list) \<Longrightarrow> distinct ks"
  by (induction ks) auto

lemma set_zip_update_key:
  assumes "distinct ks" "length vs = length ks" "p < length ks"
  shows "set (zip ks (vs[p := v])) = insert (ks ! p, v) {e \<in> set (zip ks vs). fst e \<noteq> ks ! p}"
proof -
  have z: "zip ks (vs[p := v]) = (zip ks vs)[p := (ks ! p, v)]"
    by (simp add: update_zip)
  have d: "distinct (zip ks vs)" using assms(1) by (rule distinct_zipI1)
  have "{e \<in> set (zip ks vs). fst e \<noteq> ks ! p} = set (zip ks vs) - {zip ks vs ! p}"
  proof -
    have "\<And>i. i < length ks \<Longrightarrow> ks ! i = ks ! p \<longleftrightarrow> i = p"
      using assms by (auto simp: nth_eq_iff_index_eq)
    then show ?thesis using assms by (auto simp: set_zip)
  qed
  then show ?thesis
    using assms d by (simp add: z set_update_distinct)
qed

lemma filter_key_absent:
  assumes "k \<notin> fst ` set xs"
  shows "{e \<in> set xs. fst e \<noteq> k} = set xs"
  using assms by force

lemma upd_set_Un_absent:
  assumes "k \<notin> fst ` A" "k \<notin> fst ` C"
  shows "A \<union> upd_set k v B \<union> C = upd_set k v (A \<union> B \<union> C)"
  using assms unfolding upd_set_def by force

lemma leaf_ins_entries:
  assumes "sorted_wrt (<) ks" "length vs = length ks" "1 \<le> mx"
  shows "set (up_entries (fst (leaf_ins mx f k v a ks vs))) = upd_set k v (set (zip ks vs))"
  using assms(1)
proof (cases rule: leaf_ins_cases[where k = k and mx = mx and f = f and v = v and a = a and vs = vs])
  case upd
  have "distinct ks" using assms(1) by (rule strict_sorted_distinct)
  then show ?thesis
    using upd assms(2) set_zip_update_key[of ks vs "pos_of ks k" v]
    by (simp add: up_entries_def upd_set_def)
next
  case new
  then have "k \<notin> fst ` set (zip ks vs)" by (auto dest: set_zip_leftD)
  then show ?thesis
    using new assms(2) by (simp add: up_entries_def upd_set_def zip_insert_at filter_key_absent)
next
  case split
  then have "k \<notin> fst ` set (zip ks vs)" by (auto dest: set_zip_leftD)
  then show ?thesis
    using split assms(2)
    by (simp add: up_entries_def upd_set_def zip_take_drop zip_insert_at filter_key_absent del: set_append
        flip: set_append)
qed

lemma key_not_in_siblings:
  assumes "ordered (Nd a ks ts)" "length ts = Suc (length ks)" "i = findChildIndex_loop ks k"
  shows "k \<notin> fst ` set (concat (map entries (take i ts)))"
    and "k \<notin> fst ` set (concat (map entries (drop (Suc i) ts)))"
proof -
  have "\<And>t. t \<in> set (take i ts) \<Longrightarrow> k \<notin> allkeys t"
  proof -
    fix t assume "t \<in> set (take i ts)"
    then obtain j where "j < i" "j < length ts" "t = ts ! j" by (auto dest!: in_set_take_nth)
    then show "k \<notin> allkeys t" using key_not_in_other_child[OF assms, of j] by simp
  qed
  then show "k \<notin> fst ` set (concat (map entries (take i ts)))"
    using fst_entries_allkeys by fastforce
  have "\<And>t. t \<in> set (drop (Suc i) ts) \<Longrightarrow> k \<notin> allkeys t"
  proof -
    fix t assume "t \<in> set (drop (Suc i) ts)"
    then obtain j where "Suc i \<le> j" "j < length ts" "t = ts ! j" by (auto dest!: in_set_drop_nth)
    then show "k \<notin> allkeys t" using key_not_in_other_child[OF assms, of j] by simp
  qed
  then show "k \<notin> fst ` set (concat (map entries (drop (Suc i) ts)))"
    using fst_entries_allkeys by fastforce
qed

lemma node_ins_entries:
  assumes "i < length ts" "length ts = Suc (length ks)" "1 \<le> mx"
  shows "up_entries (fst (node_ins mx f a ks ts i l sep r)) =
           concat (map entries (take i ts @ l # r # drop (Suc i) ts))"
  using assms
proof (cases rule: node_ins_cases[where f = f and a = a and l = l and sep = sep and r = r])
  case fit
  then show ?thesis by (simp add: up_entries_def)
next
  case (split ks1 ts1 ks2 ts2)
  have "up_entries (fst (node_ins mx f a ks ts i l sep r)) = concat (map entries (ts1 @ ts2))"
    using split(2) by (simp add: up_entries_def)
  then show ?thesis using split(3) by simp
qed

lemma node_ins_leaves:
  assumes "i < length ts" "length ts = Suc (length ks)" "1 \<le> mx"
  shows "up_leaves (fst (node_ins mx f a ks ts i l sep r)) =
           concat (map leaves (take i ts @ l # r # drop (Suc i) ts))"
  using assms
proof (cases rule: node_ins_cases[where f = f and a = a and l = l and sep = sep and r = r])
  case fit
  then show ?thesis by (simp add: up_leaves_def)
next
  case (split ks1 ts1 ks2 ts2)
  have "up_leaves (fst (node_ins mx f a ks ts i l sep r)) = concat (map leaves (ts1 @ ts2))"
    using split(2) by (simp add: up_leaves_def)
  then show ?thesis using split(3) by simp
qed

lemma ins_entries:
  assumes "ordered t" "counts lo mn mx t" "1 \<le> mx"
  shows "set (up_entries (fst (ins mx f k v t))) = upd_set k v (set (entries t))"
  using assms
proof (induction mx f k v t arbitrary: lo rule: ins.induct)
  case (1 mx f k v a ks vs)
  then show ?case using leaf_ins_entries[of ks vs mx f k v a] by simp
next
  case (2 mx f k v a ks ts)
  define i where "i = findChildIndex_loop ks k"
  have len: "length ts = Suc (length ks)" using "2.prems" by simp
  have il: "i < length ts" "i \<le> length ks"
    using findChildIndex_loop_le[of ks k] len by (auto simp: i_def)
  then have mem: "ts ! i \<in> set ts" by simp
  have IH: "set (up_entries (fst (ins mx f k v (ts ! i)))) = upd_set k v (set (entries (ts ! i)))"
    using "2.IH"[OF i_def[symmetric, THEN sym] il(1), of mn] "2.prems" mem by auto
  note sib = key_not_in_siblings[OF "2.prems"(1) len i_def]
  have old: "set (entries (Nd a ks ts)) =
     set (concat (map entries (take i ts))) \<union> set (entries (ts ! i)) \<union> set (concat (map entries (drop (Suc i) ts)))"
    using concat_map_take_drop[OF il(1), of entries] by (simp add: Un_assoc)
  have goal: "set (concat (map entries (take i ts))) \<union> upd_set k v (set (entries (ts ! i))) \<union>
      set (concat (map entries (drop (Suc i) ts))) = upd_set k v (set (entries (Nd a ks ts)))"
    unfolding old using sib by (rule upd_set_Un_absent)
  obtain u f' where u: "ins mx f k v (ts ! i) = (u, f')" by (cases "ins mx f k v (ts ! i)")
  show ?case
  proof (cases u)
    case (TI c)
    then have r: "ins mx f k v (Nd a ks ts) = (TI (Nd a ks (ts[i := c])), f')"
      using u il by (simp add: i_def)
    have "set (up_entries (TI (Nd a ks (ts[i := c])))) =
      set (concat (map entries (take i ts))) \<union> set (entries c) \<union> set (concat (map entries (drop (Suc i) ts)))"
      using il by (simp add: up_entries_def upd_take_drop Un_assoc)
    also have "set (entries c) = upd_set k v (set (entries (ts ! i)))"
      using IH u TI by (simp add: up_entries_def)
    finally show ?thesis using r goal by (simp del: entries.simps)
  next
    case (UpI l sep r)
    then have res: "ins mx f k v (Nd a ks ts) = node_ins mx f' a ks ts i l sep r"
      using u il by (simp add: i_def)
    have "set (up_entries (fst (node_ins mx f' a ks ts i l sep r))) =
      set (concat (map entries (take i ts))) \<union> (set (entries l) \<union> set (entries r)) \<union> set (concat (map entries (drop (Suc i) ts)))"
      using node_ins_entries[OF il(1) len "2.prems"(3)] by (simp add: Un_assoc)
    also have "set (entries l) \<union> set (entries r) = upd_set k v (set (entries (ts ! i)))"
      using IH u UpI by (simp add: up_entries_def)
    finally show ?thesis using res goal by (simp del: entries.simps)
  qed
qed

subsection \<open>Addresses and leaves\<close>

lemma leaves_subset_addrs: "set (leaves t) \<subseteq> set (addrs t)"
  by (induction t) auto

lemma leaves_nonempty: "counts lo mn mx t \<Longrightarrow> leaves t \<noteq> []"
proof (induction t arbitrary: lo)
  case (Lf a ks vs)
  then show ?case by simp
next
  case (Nd a ks ts)
  then obtain c cs where ts: "ts = c # cs" by (cases ts) auto
  then have "leaves c \<noteq> []" using Nd.IH[of c mn] Nd.prems by simp
  then show ?case using ts by simp
qed

lemma addr_of_in_addrs: "addr_of t \<in> set (addrs t)"
  by (cases t) auto

lemma ins_addr_of:
  assumes "counts lo mn mx t" "1 \<le> mx"
  shows "addr_of (hd (up_trees (fst (ins mx f k v t)))) = addr_of t"
proof (cases t)
  case (Lf a ks vs)
  then show ?thesis by (simp add: leaf_ins_def Let_def)
next
  case (Nd a ks ts)
  define i where "i = findChildIndex_loop ks k"
  have len: "length ts = Suc (length ks)" using assms Nd by simp
  have il: "i < length ts" using findChildIndex_loop_le[of ks k] len by (auto simp: i_def)
  obtain u f' where u: "ins mx f k v (ts ! i) = (u, f')" by (cases "ins mx f k v (ts ! i)")
  show ?thesis
  proof (cases u)
    case (TI c)
    then show ?thesis using u il Nd by (simp add: i_def)
  next
    case (UpI l sep r)
    then show ?thesis using u il Nd by (simp add: i_def node_ins_def Let_def)
  qed
qed

lemma ins_hd_leaves:
  assumes "ordered t" "counts lo mn mx t" "1 \<le> mx" "mn = mx div 2"
  shows "hd (up_leaves (fst (ins mx f k v t))) = hd (leaves t) \<and> up_leaves (fst (ins mx f k v t)) \<noteq> []"
  using assms
proof (induction mx f k v t arbitrary: lo rule: ins.induct)
  case (1 mx f k v a ks vs)
  then show ?case by (auto simp: leaf_ins_def Let_def up_leaves_def)
next
  case (2 mx f k v a ks ts)
  define i where "i = findChildIndex_loop ks k"
  have len: "length ts = Suc (length ks)" using "2.prems" by simp
  have il: "i < length ts" "i \<le> length ks"
    using findChildIndex_loop_le[of ks k] len by (auto simp: i_def)
  then have mem: "ts ! i \<in> set ts" by simp
  have IH: "hd (up_leaves (fst (ins mx f k v (ts ! i)))) = hd (leaves (ts ! i)) \<and> up_leaves (fst (ins mx f k v (ts ! i))) \<noteq> []"
    using "2.IH"[OF i_def[symmetric, THEN sym] il(1), of mn] "2.prems" mem by auto
  have ne: "leaves (ts ! i) \<noteq> []" using leaves_nonempty[of mn mn mx "ts ! i"] "2.prems" mem by auto
  have old: "leaves (Nd a ks ts) = concat (map leaves (take i ts)) @ leaves (ts ! i) @ concat (map leaves (drop (Suc i) ts))"
    using concat_map_take_drop[OF il(1), of leaves] by simp
  have hd_eq: "\<And>xs ys zs ys'. ys \<noteq> [] \<Longrightarrow> ys' \<noteq> [] \<Longrightarrow> hd ys' = hd ys \<Longrightarrow> hd (xs @ ys' @ zs) = hd (xs @ ys @ zs) \<and> xs @ ys' @ zs \<noteq> []"
    by (simp add: hd_append)
  obtain u f' where u: "ins mx f k v (ts ! i) = (u, f')" by (cases "ins mx f k v (ts ! i)")
  show ?case
  proof (cases u)
    case (TI c)
    then have r: "ins mx f k v (Nd a ks ts) = (TI (Nd a ks (ts[i := c])), f')"
      using u il by (simp add: i_def)
    have new: "up_leaves (TI (Nd a ks (ts[i := c]))) = concat (map leaves (take i ts)) @ leaves c @ concat (map leaves (drop (Suc i) ts))"
      using il by (simp add: up_leaves_def upd_take_drop)
    have "leaves c \<noteq> []" "hd (leaves c) = hd (leaves (ts ! i))" using IH u TI by (auto simp: up_leaves_def)
    then show ?thesis unfolding r fst_conv new old using ne by (intro hd_eq)
  next
    case (UpI l sep r)
    then have res: "ins mx f k v (Nd a ks ts) = node_ins mx f' a ks ts i l sep r"
      using u il by (simp add: i_def)
    have new: "up_leaves (fst (node_ins mx f' a ks ts i l sep r)) =
        concat (map leaves (take i ts)) @ (leaves l @ leaves r) @ concat (map leaves (drop (Suc i) ts))"
      using node_ins_leaves[OF il(1) len "2.prems"(3)] by simp
    have "leaves l @ leaves r \<noteq> []" "hd (leaves l @ leaves r) = hd (leaves (ts ! i))"
      using IH u UpI by (auto simp: up_leaves_def)
    then show ?thesis unfolding res new old using ne by (intro hd_eq)
  qed
qed

section \<open>Insertion in the store follows insertion on the represented tree\<close>

lemma distinct_replace_middle:
  fixes a :: nat
  assumes "distinct (a # B @ M @ A)" "\<forall>x\<in>set (a # B @ M @ A). x < f" "f \<le> f'"
    "distinct M'" "set M' \<subseteq> set M \<union> {f..<f'}"
  shows "distinct (a # B @ M' @ A)" and "\<forall>x\<in>set (a # B @ M' @ A). x < f'"
    and "set (a # B @ M' @ A) \<subseteq> set (a # B @ M @ A) \<union> {f..<f'}"
proof -
  have new: "\<And>x. x \<in> set M' \<Longrightarrow> x \<notin> set M \<Longrightarrow> f \<le> x \<and> x < f'"
    using assms(5) by auto
  have old: "\<And>x. x = a \<or> x \<in> set B \<or> x \<in> set A \<or> x \<in> set M \<Longrightarrow> x < f"
    using assms(2) by auto
  have 1: "a \<notin> set M'"
  proof
    assume "a \<in> set M'"
    moreover have "a \<notin> set M" using assms(1) by auto
    ultimately have "f \<le> a" using new by blast
    with old[of a] show False by simp
  qed
  have 2: "set B \<inter> set M' = {}"
  proof (rule ccontr)
    assume "set B \<inter> set M' \<noteq> {}"
    then obtain x where x: "x \<in> set B" "x \<in> set M'" by auto
    then have "x \<notin> set M" using assms(1) by auto
    then have "f \<le> x" using new x by blast
    with old[of x] x show False by simp
  qed
  have 3: "set M' \<inter> set A = {}"
  proof (rule ccontr)
    assume "set M' \<inter> set A \<noteq> {}"
    then obtain x where x: "x \<in> set A" "x \<in> set M'" by auto
    then have "x \<notin> set M" using assms(1) by auto
    then have "f \<le> x" using new x by blast
    with old[of x] x show False by simp
  qed
  show "distinct (a # B @ M' @ A)"
    using assms(1,4) 1 2 3 by auto
  show "\<forall>x\<in>set (a # B @ M' @ A). x < f'"
  proof
    fix x assume "x \<in> set (a # B @ M' @ A)"
    then consider "x = a \<or> x \<in> set B \<or> x \<in> set A" | "x \<in> set M'" by auto
    then show "x < f'"
    proof cases
      case 1
      then have "x < f" using old by blast
      then show ?thesis using assms(3) by simp
    next
      case 2
      show ?thesis
      proof (cases "x \<in> set M")
        case True
        then have "x < f" using old by blast
        then show ?thesis using assms(3) by simp
      next
        case False
        then show ?thesis using new 2 by blast
      qed
    qed
  qed
  show "set (a # B @ M' @ A) \<subseteq> set (a # B @ M @ A) \<union> {f..<f'}"
    using assms(5) by auto
qed

lemma node_ins_addrs:
  assumes "i < length ts" "length ts = Suc (length ks)" "1 \<le> mx"
    and D: "distinct (a # concat (map addrs (take i ts @ l # r # drop (Suc i) ts)))"
    and F: "\<forall>x\<in>set (a # concat (map addrs (take i ts @ l # r # drop (Suc i) ts))). x < f"
  shows "f \<le> snd (node_ins mx f a ks ts i l sep r) \<and>
         distinct (up_addrs (fst (node_ins mx f a ks ts i l sep r))) \<and>
         set (up_addrs (fst (node_ins mx f a ks ts i l sep r))) \<subseteq>
           set (a # concat (map addrs (take i ts @ l # r # drop (Suc i) ts))) \<union>
           {f..<snd (node_ins mx f a ks ts i l sep r)}"
  using assms(1-3)
proof (cases rule: node_ins_cases[where f = f and a = a and l = l and sep = sep and r = r])
  case fit
  then show ?thesis using D by (simp add: up_addrs_def)
next
  case (split ks1 ts1 ks2 ts2)
  let ?all = "concat (map addrs (take i ts @ l # r # drop (Suc i) ts))"
  have all: "?all = concat (map addrs ts1) @ concat (map addrs ts2)"
    using split(3)[symmetric] by simp
  have ua: "up_addrs (fst (node_ins mx f a ks ts i l sep r)) = a # concat (map addrs ts1) @ f # concat (map addrs ts2)"
    using split(2) by (simp add: up_addrs_def)
  have "f \<notin> set (a # ?all)" using F by auto
  then have "distinct (a # concat (map addrs ts1) @ f # concat (map addrs ts2))"
    using D unfolding all by auto
  moreover have "set (a # concat (map addrs ts1) @ f # concat (map addrs ts2)) \<subseteq> set (a # ?all) \<union> {f..<Suc f}"
    unfolding all by auto
  ultimately show ?thesis using split(2) ua by simp
qed

lemma ins_addrs:
  assumes "counts lo mn mx t" "1 \<le> mx" "distinct (addrs t)" "\<forall>x\<in>set (addrs t). x < f"
  shows "f \<le> snd (ins mx f k v t) \<and> distinct (up_addrs (fst (ins mx f k v t))) \<and>
         set (up_addrs (fst (ins mx f k v t))) \<subseteq> set (addrs t) \<union> {f..<snd (ins mx f k v t)}"
  using assms
proof (induction mx f k v t arbitrary: lo rule: ins.induct)
  case (1 mx f k v a ks vs)
  then show ?case by (auto simp: leaf_ins_def Let_def up_addrs_def)
next
  case (2 mx f k v a ks ts)
  define i where "i = findChildIndex_loop ks k"
  have len: "length ts = Suc (length ks)" using "2.prems" by simp
  have il: "i < length ts" "i \<le> length ks"
    using findChildIndex_loop_le[of ks k] len by (auto simp: i_def)
  then have mem: "ts ! i \<in> set ts" by simp
  let ?B = "concat (map addrs (take i ts))" and ?A = "concat (map addrs (drop (Suc i) ts))"
  have old: "addrs (Nd a ks ts) = a # ?B @ addrs (ts ! i) @ ?A"
    using concat_map_take_drop[OF il(1), of addrs] by simp
  have D: "distinct (a # ?B @ addrs (ts ! i) @ ?A)" and F: "\<forall>x\<in>set (a # ?B @ addrs (ts ! i) @ ?A). x < f"
    using "2.prems"(3,4) unfolding old by auto
  obtain u f' where u: "ins mx f k v (ts ! i) = (u, f')" by (cases "ins mx f k v (ts ! i)")
  have IH: "f \<le> f' \<and> distinct (up_addrs u) \<and> set (up_addrs u) \<subseteq> set (addrs (ts ! i)) \<union> {f..<f'}"
    using "2.IH"[OF i_def[symmetric, THEN sym] il(1), of mn] "2.prems"(1,2) mem D F u by auto
  have IH1: "f \<le> f'" and IH2: "distinct (up_addrs u)"
    and IH3: "set (up_addrs u) \<subseteq> set (addrs (ts ! i)) \<union> {f..<f'}" using IH by auto
  note rm = distinct_replace_middle[OF D F IH1 IH2 IH3]
  have D': "distinct (a # ?B @ up_addrs u @ ?A)" by (rule rm(1))
  have F': "\<forall>x\<in>set (a # ?B @ up_addrs u @ ?A). x < f'" by (rule rm(2))
  have S': "set (a # ?B @ up_addrs u @ ?A) \<subseteq> set (addrs (Nd a ks ts)) \<union> {f..<f'}"
    unfolding old by (rule rm(3))
  show ?case
  proof (cases u)
    case (TI c)
    then have r: "ins mx f k v (Nd a ks ts) = (TI (Nd a ks (ts[i := c])), f')"
      using u il by (simp add: i_def)
    have new: "up_addrs (TI (Nd a ks (ts[i := c]))) = a # ?B @ up_addrs u @ ?A"
      using il TI by (simp add: up_addrs_def upd_take_drop)
    show ?thesis unfolding r fst_conv snd_conv new using D' S' IH1 by blast
  next
    case (UpI l sep r)
    then have res: "ins mx f k v (Nd a ks ts) = node_ins mx f' a ks ts i l sep r"
      using u il by (simp add: i_def)
    have eq: "a # concat (map addrs (take i ts @ l # r # drop (Suc i) ts)) = a # ?B @ up_addrs u @ ?A"
      using UpI by (simp add: up_addrs_def)
    have "f' \<le> snd (node_ins mx f' a ks ts i l sep r) \<and>
         distinct (up_addrs (fst (node_ins mx f' a ks ts i l sep r))) \<and>
         set (up_addrs (fst (node_ins mx f' a ks ts i l sep r))) \<subseteq>
           set (a # concat (map addrs (take i ts @ l # r # drop (Suc i) ts))) \<union>
           {f'..<snd (node_ins mx f' a ks ts i l sep r)}"
      using il(1) len "2.prems"(2) D' F' unfolding eq[symmetric] by (rule node_ins_addrs)
    then obtain g where g: "g = snd (node_ins mx f' a ks ts i l sep r)" "f' \<le> g"
      "distinct (up_addrs (fst (node_ins mx f' a ks ts i l sep r)))"
      "set (up_addrs (fst (node_ins mx f' a ks ts i l sep r))) \<subseteq> set (a # ?B @ up_addrs u @ ?A) \<union> {f'..<g}"
      unfolding eq by blast
    have "{f..<f'} \<union> {f'..<g} \<subseteq> {f..<g}" using IH1 g(2) by auto
    then have "set (up_addrs (fst (node_ins mx f' a ks ts i l sep r))) \<subseteq> set (addrs (Nd a ks ts)) \<union> {f..<g}"
      using g(4) S' by blast
    then show ?thesis unfolding res using g IH1 by (simp del: addrs.simps)
  qed
qed

lemma same_but_prev_refl [simp]: "same_but_prev x x"
proof (cases x)
  case None
  then show ?thesis by (simp add: same_but_prev_def)
next
  case (Some n)
  have "n = n\<lparr>prev_leaf := prev_leaf n\<rparr>" by simp
  then show ?thesis using Some unfolding same_but_prev_def by (auto intro: exI[of _ "prev_leaf n"])
qed

lemma same_but_prev_trans: "same_but_prev x y \<Longrightarrow> same_but_prev y z \<Longrightarrow> same_but_prev x z"
  by (cases x) (auto simp: same_but_prev_def)

lemma same_but_prev_SomeD:
  assumes "same_but_prev (Some n) y"
  obtains n' where "y = Some n'" "isLeaf n' = isLeaf n" "keys n' = keys n" "vals n' = vals n"
    "children n' = children n" "parent n' = parent n" "nmaxKeys n' = nmaxKeys n"
    "next_leaf n' = next_leaf n"
  using assms by (auto simp: same_but_prev_def)

lemma rep_frame:
  assumes "rep h mx par t" "\<forall>a\<in>set (addrs t). same_but_prev (h a) (h' a)"
  shows "rep h' mx par t"
  using assms
proof (induction t arbitrary: par)
  case (Lf a ks vs)
  then obtain n where n: "h a = Some n" by (cases "h a") auto
  with Lf have "same_but_prev (Some n) (h' a)" by (metis addrs.simps(1) list.set_intros(1))
  then show ?case using Lf n by (elim same_but_prev_SomeD) auto
next
  case (Nd a ks ts)
  then obtain n where n: "h a = Some n" by (cases "h a") auto
  with Nd.prems have "same_but_prev (Some n) (h' a)" by (metis addrs.simps(2) list.set_intros(1))
  then obtain n' where n': "h' a = Some n'" "isLeaf n' = isLeaf n" "keys n' = keys n"
    "children n' = children n" "parent n' = parent n" "nmaxKeys n' = nmaxKeys n"
    by (elim same_but_prev_SomeD)
  have "\<And>t. t \<in> set ts \<Longrightarrow> rep h' mx (Some a) t"
  proof -
    fix t assume t: "t \<in> set ts"
    then have "rep h mx (Some a) t" using Nd.prems n by simp
    moreover have "\<forall>b\<in>set (addrs t). same_but_prev (h b) (h' b)" using Nd.prems(2) t by auto
    ultimately show "rep h' mx (Some a) t" using Nd.IH t by blast
  qed
  then show ?case using Nd.prems n n' by simp
qed

lemma rep_upd_other:
  "rep h mx par t \<Longrightarrow> a \<notin> set (addrs t) \<Longrightarrow> rep (h(a := x)) mx par t"
  by (erule rep_frame) auto

lemma nchain_frame:
  assumes "nchain h ls nx" "\<forall>a\<in>set ls. map_option next_leaf (h' a) = map_option next_leaf (h a)"
  shows "nchain h' ls nx"
  using assms
proof (induction ls)
  case Nil
  then show ?case by simp
next
  case (Cons a as)
  then have "map_option next_leaf (h' a) = map_option next_leaf (h a)" by simp
  then show ?case using Cons by (cases "h a"; cases "h' a") auto
qed

lemma same_but_prev_next:
  "same_but_prev x y \<Longrightarrow> map_option next_leaf y = map_option next_leaf x"
  by (cases x) (auto simp: same_but_prev_def)

lemma hdo_simps [simp]: "hdo [] nx = nx" "hdo (b # bs) nx = Some b"
  by (simp_all add: hdo_def)

lemma hdo_append: "hdo (xs @ ys) nx = hdo xs (hdo ys nx)"
  by (cases xs) auto

lemma hdo_nonempty: "xs \<noteq> [] \<Longrightarrow> hdo xs nx = Some (hd xs)"
  by (cases xs) auto

lemma nchain_Cons: "nchain h (a # as) nx \<longleftrightarrow> (\<exists>n. h a = Some n \<and> next_leaf n = hdo as nx) \<and> nchain h as nx"
  by (cases "h a") (auto simp: hdo_def)

lemma nchain_append: "nchain h (xs @ ys) nx \<longleftrightarrow> nchain h xs (hdo ys nx) \<and> nchain h ys nx"
proof (induction xs)
  case Nil
  then show ?case by simp
next
  case (Cons a xs)
  then show ?case by (auto simp: nchain_Cons hdo_append simp del: nchain.simps)
qed

lemma nchain_allocated: "nchain h ls nx \<Longrightarrow> a \<in> set ls \<Longrightarrow> h a \<noteq> None"
  by (induction ls) (auto simp: nchain_Cons simp del: nchain.simps)

lemma rep_allocated: "rep h mx par t \<Longrightarrow> h (addr_of t) \<noteq> None"
  by (cases t) (auto split: option.splits)

lemma rep_reparent:
  assumes "rep h mx par t" "distinct (addrs t)" "h (addr_of t) = Some n"
    "h' (addr_of t) = Some (n\<lparr>parent := par'\<rparr>)"
    "\<forall>b\<in>set (addrs t). b \<noteq> addr_of t \<longrightarrow> same_but_prev (h b) (h' b)"
  shows "rep h' mx par' t"
proof (cases t)
  case (Lf a ks vs)
  then show ?thesis using assms by auto
next
  case (Nd a ks ts)
  have "\<And>c. c \<in> set ts \<Longrightarrow> rep h' mx (Some a) c"
  proof -
    fix c assume c: "c \<in> set ts"
    then have "rep h mx (Some a) c" using assms(1,3) Nd by simp
    moreover have "\<forall>b\<in>set (addrs c). same_but_prev (h b) (h' b)"
    proof
      fix b assume b: "b \<in> set (addrs c)"
      then have "b \<in> set (addrs t)" "b \<noteq> addr_of t" using assms(2) c Nd by auto
      then show "same_but_prev (h b) (h' b)" using assms(5) by blast
    qed
    ultimately show "rep h' mx (Some a) c" by (rule rep_frame)
  qed
  then show ?thesis using assms Nd by simp
qed

text \<open>\<open>set_parents\<close> redirects the parent pointers of the listed nodes, when all of
  them are allocated.\<close>

lemma set_parents_Some:
  assumes "\<forall>a\<in>set as. heap s a \<noteq> None"
  shows "set_parents s as p =
     Some (s\<lparr>heap := (\<lambda>b. if b \<in> set as then map_option (\<lambda>n. n\<lparr>parent := p\<rparr>) (heap s b) else heap s b)\<rparr>)"
  using assms
proof (induction as arbitrary: s)
  case Nil
  then show ?case by simp
next
  case (Cons a as)
  then obtain n where n: "heap s a = Some n" by auto
  let ?s = "store s a (n\<lparr>parent := p\<rparr>)"
  have "\<forall>b\<in>set as. heap ?s b \<noteq> None" using Cons.prems by (auto simp: store_def)
  from Cons.IH[OF this] n show ?case
    by (auto simp: set_parent_def store_def fun_eq_iff intro!: arg_cong[where f = "\<lambda>h. s\<lparr>heap := h\<rparr>"])
qed

lemma insertIntoParent_unfold:
  assumes "heap s al = Some ln" "parent ln = Some a" "heap s a = Some n" "heap s ar = Some rn" "a \<noteq> ar"
  shows "insertIntoParent s al sep ar =
     (let pos = findKeyPosition n sep;
          n' = n\<lparr>keys := insert_at pos sep (keys n), children := insert_at (Suc pos) ar (children n)\<rparr>;
          s2 = s\<lparr>heap := (heap s)(a \<mapsto> n', ar \<mapsto> rn\<lparr>parent := Some a\<rparr>)\<rparr>
      in if isFull n' then
           do { (s3, promoteKey, newNode) \<leftarrow> splitInternal_body s2 a;
                insertIntoParent s3 a promoteKey newNode }
         else Some s2)"
  using assms
  by (subst insertIntoParent.simps)
     (simp add: Let_def store_def insertChildAt_def set_parent_def insertKeyAt_def isFull_def numKeys_def)

lemma insertIntoParent_root:
  assumes "heap s al = Some ln" "parent ln = None" "heap s ar = Some rn" "al \<noteq> ar"
    "al \<noteq> fresh s" "ar \<noteq> fresh s"
  shows "insertIntoParent s al sep ar =
     Some (s\<lparr>heap := (heap s)(fresh s \<mapsto> (InternalNode (maxKeys s))\<lparr>keys := [sep], children := [al, ar]\<rparr>,
                               al \<mapsto> ln\<lparr>parent := Some (fresh s)\<rparr>,
                               ar \<mapsto> rn\<lparr>parent := Some (fresh s)\<rparr>),
             fresh := Suc (fresh s), root := Some (fresh s)\<rparr>)"
  using assms
  by (subst insertIntoParent.simps)
     (simp add: Let_def store_def set_parent_def new_node_def)

lemma splitInternal_body_fold:
  "splitInternal_body s node =
     do { n \<leftarrow> heap s node;
          let (newNode, s1) = new_node s (InternalNode (maxKeys s));
          let sp = splitPoint (maxKeys s);
          promoteKey \<leftarrow> nth_opt (keys n) sp;
          nn \<leftarrow> heap s1 newNode;
          let s2 = store s1 newNode (nn\<lparr>keys := drop (Suc sp) (keys n),
                                         children := drop (Suc sp) (children n)\<rparr>);
          s3 \<leftarrow> set_parents s2 (drop (Suc sp) (children n)) (Some newNode);
          n3 \<leftarrow> heap s3 node;
          let s4 = store s3 node (n3\<lparr>keys := take sp (keys n3),
                                      children := take (Suc sp) (children n3)\<rparr>);
          Some (s4, promoteKey, newNode) }"
  by (simp add: splitInternal_body_def splitPoint_def)

lemma splitInternal_body_eq:
  assumes n: "heap s a = Some n" and sp: "splitPoint (maxKeys s) < length (keys n)"
    and cs: "\<forall>c\<in>set (drop (Suc (splitPoint (maxKeys s))) (children n)). heap s c \<noteq> None \<and> c \<noteq> a \<and> c \<noteq> fresh s"
    and a: "a \<noteq> fresh s"
  shows "splitInternal_body s a =
     Some (s\<lparr>fresh := Suc (fresh s),
             heap := (\<lambda>b. if b = a then Some (n\<lparr>keys := take (splitPoint (maxKeys s)) (keys n),
                                                  children := take (Suc (splitPoint (maxKeys s))) (children n)\<rparr>)
                        else if b = fresh s then Some ((InternalNode (maxKeys s))\<lparr>keys := drop (Suc (splitPoint (maxKeys s))) (keys n),
                                                         children := drop (Suc (splitPoint (maxKeys s))) (children n)\<rparr>)
                        else if b \<in> set (drop (Suc (splitPoint (maxKeys s))) (children n))
                          then map_option (\<lambda>m. m\<lparr>parent := Some (fresh s)\<rparr>) (heap s b)
                        else heap s b)\<rparr>, keys n ! splitPoint (maxKeys s), fresh s)"
  unfolding splitInternal_body_fold
  using n sp a cs
  apply (simp add: Let_def new_node_def store_def set_parents_Some del: set_parents.simps)
  apply (auto simp: fun_eq_iff intro!: arg_cong[where f = "\<lambda>h. s\<lparr>fresh := Suc (fresh s), heap := h\<rparr>"])
  done

lemma distinct_concat_addrs_unique:
  assumes "distinct (concat (map addrs ts))" "t \<in> set ts" "t' \<in> set ts"
    "b \<in> set (addrs t)" "b \<in> set (addrs t')"
  shows "t = t'"
  using assms
proof (induction ts)
  case Nil
  then show ?case by simp
next
  case (Cons c cs)
  then show ?case by (cases "t = c"; cases "t' = c") auto
qed

lemma rep_parent:
  assumes "rep h mx par t"
  obtains n where "h (addr_of t) = Some n" "parent n = par"
  using assms by (cases t) (auto split: option.splits)

lemma map_addr_of_ins:
  assumes "i < length ts" "addr_of l = addr_of (ts ! i)"
  shows "insert_at (Suc i) x (map addr_of ts) = map addr_of (take i ts @ l # r # drop (Suc i) ts) \<longleftrightarrow> x = addr_of r"
proof -
  have "take (Suc i) (map addr_of ts) = map addr_of (take i ts) @ [addr_of l]"
    using assms by (simp add: take_Suc_conv_app_nth take_map)
  then show ?thesis by (auto simp: insert_at_def drop_map)
qed

lemma node_ins_refine:
  fixes s :: "('k::linorder, 'v) BPlusTree"
  assumes pn: "heap s a = Some n" "\<not> isLeaf n" "keys n = ks" "children n = map addr_of ts"
      "parent n = par" "nmaxKeys n = mx"
    and l: "rep (heap s) mx (Some a) l" and r: "rep (heap s) mx None r"
    and sib: "\<forall>t\<in>set (take i ts) \<union> set (drop (Suc i) ts). rep (heap s) mx (Some a) t"
    and addr_l: "addr_of l = addr_of (ts ! i)"
    and D: "distinct (a # concat (map addrs (take i ts @ l # r # drop (Suc i) ts)))"
    and F: "\<forall>x\<in>set (a # concat (map addrs (take i ts @ l # r # drop (Suc i) ts))). x < fresh s"
    and i: "i < length ts" "length ts = Suc (length ks)" "sorted_wrt (<) ks" "pos_of ks sep = i"
    and mx: "maxKeys s = mx" "1 \<le> mx" "length ks \<le> mx"
  shows "\<exists>s'. insertIntoParent s (addr_of l) sep (addr_of r) =
              up_cont s' (fst (node_ins mx (fresh s) a ks ts i l sep r)) \<and>
           rep_up (heap s') mx par (fst (node_ins mx (fresh s) a ks ts i l sep r)) \<and>
           frame s s' (set (a # concat (map addrs (take i ts @ l # r # drop (Suc i) ts)))) \<and>
           fresh s' = snd (node_ins mx (fresh s) a ks ts i l sep r) \<and> next_same s s'"
proof -
  define ts' where "ts' = take i ts @ l # r # drop (Suc i) ts"
  define ks' where "ks' = insert_at i sep ks"
  let ?A = "set (a # concat (map addrs ts'))"
  note D = D[folded ts'_def] and F = F[folded ts'_def]
  have len_ks': "length ks' = Suc (length ks)" by (simp add: ks'_def)
  have mem_ts': "r \<in> set ts'" "l \<in> set ts'" by (simp_all add: ts'_def)
  let ?ar = "addr_of r"
  obtain ln where ln: "heap s (addr_of l) = Some ln" "parent ln = Some a"
    using l by (rule rep_parent)
  obtain rn where rn: "heap s ?ar = Some rn" "parent rn = None"
    using r by (rule rep_parent)
  have ar_in: "?ar \<in> set (addrs r)" by (rule addr_of_in_addrs)
  have a_ar: "a \<noteq> ?ar" using D ar_in mem_ts' by auto
  have Dr: "distinct (addrs r)" using D mem_ts' by (auto simp: distinct_concat_iff)
  have Dc: "distinct (concat (map addrs ts'))" using D by simp
  define n' where "n' = n\<lparr>keys := ks', children := map addr_of ts'\<rparr>"
  define s2 where "s2 = s\<lparr>heap := (heap s)(a \<mapsto> n', ?ar \<mapsto> rn\<lparr>parent := Some a\<rparr>)\<rparr>"
  have pos: "findKeyPosition n sep = i"
    using i(3,4) pn(3) by (simp add: findKeyPosition_def numKeys_def findKeyPosition_pos_of)
  have ch: "insert_at (Suc i) ?ar (children n) = map addr_of ts'"
    using map_addr_of_ins[OF i(1) addr_l, of ?ar r] pn(4) by (simp add: ts'_def)
  have unfold: "insertIntoParent s (addr_of l) sep ?ar =
      (if isFull n' then
           do { (s3, promoteKey, newNode) \<leftarrow> splitInternal_body s2 a;
                insertIntoParent s3 a promoteKey newNode }
         else Some s2)"
    using insertIntoParent_unfold[OF ln pn(1) rn(1) a_ar, of sep] pos ch pn(3)
    by (simp add: Let_def n'_def s2_def ks'_def)
  have full: "isFull n' \<longleftrightarrow> mx < Suc (length ks)"
    using pn(6) by (simp add: isFull_def numKeys_def n'_def ks'_def)
  have h2_a: "heap s2 a = Some n'" using a_ar by (simp add: s2_def)
  have h2_ar: "heap s2 ?ar = Some (rn\<lparr>parent := Some a\<rparr>)" by (simp add: s2_def)
  have h2_other: "\<And>b. b \<noteq> a \<Longrightarrow> b \<noteq> ?ar \<Longrightarrow> heap s2 b = heap s b" by (simp add: s2_def)
  have s2_fields: "root s2 = root s" "maxKeys s2 = maxKeys s" "minKeys s2 = minKeys s" "fresh s2 = fresh s"
    by (simp_all add: s2_def)
  have rep_s: "\<And>t. t \<in> set ts' \<Longrightarrow> t \<noteq> r \<Longrightarrow> rep (heap s) mx (Some a) t"
    using l sib by (auto simp: ts'_def)
  have not_root_r: "\<And>t b. t \<in> set ts' \<Longrightarrow> t \<noteq> r \<Longrightarrow> b \<in> set (addrs t) \<Longrightarrow> b \<noteq> ?ar"
  proof
    fix t b assume t: "t \<in> set ts'" "t \<noteq> r" "b \<in> set (addrs t)" "b = ?ar"
    have "r \<in> set ts'" by (rule mem_ts')
    with Dc t ar_in have "t = r" by (intro distinct_concat_addrs_unique[of ts' t r b]) auto
    with t show False by simp
  qed
  have not_a: "\<And>t b. t \<in> set ts' \<Longrightarrow> b \<in> set (addrs t) \<Longrightarrow> b \<noteq> a"
    using D by auto
  have R2: "\<And>t. t \<in> set ts' \<Longrightarrow> rep (heap s2) mx (Some a) t"
  proof -
    fix t assume t: "t \<in> set ts'"
    show "rep (heap s2) mx (Some a) t"
    proof (cases "t = r")
      case False
      have "\<forall>b\<in>set (addrs t). same_but_prev (heap s b) (heap s2 b)"
        using not_root_r[OF t False] not_a[OF t] h2_other by simp
      with rep_s[OF t False] show ?thesis by (rule rep_frame)
    next
      case True
      have "\<forall>b\<in>set (addrs r). b \<noteq> addr_of r \<longrightarrow> same_but_prev (heap s b) (heap s2 b)"
        using not_a[OF mem_ts'(1)] h2_other by simp
      with r Dr rn(1) h2_ar show ?thesis unfolding True by (rule rep_reparent)
    qed
  qed
  have frame2: "\<And>b. b \<notin> ?A \<Longrightarrow> heap s2 b = heap s b"
    using ar_in mem_ts' by (intro h2_other) auto
  have next2: "\<And>b. map_option next_leaf (heap s2 b) = map_option next_leaf (heap s b)"
    using pn(1) rn(1) by (simp add: s2_def n'_def)
  show ?thesis
  proof (cases "length ks < mx")
    case True
    then have res: "node_ins mx (fresh s) a ks ts i l sep r = (TI (Nd a ks' ts'), fresh s)"
      using i(1) by (simp add: node_ins_def Let_def ins_take_drop ts'_def ks'_def)
    have "rep (heap s2) mx par (Nd a ks' ts')"
      using h2_a pn R2 by (simp add: n'_def)
    moreover have "frame s s2 ?A"
      using frame2 s2_fields by (simp add: frame_def)
    moreover have "next_same s s2" using next2 by (simp add: next_same_def)
    moreover have "insertIntoParent s (addr_of l) sep ?ar = Some s2"
      using unfold full True by simp
    ultimately show ?thesis using res s2_fields unfolding ts'_def[symmetric] by (intro exI[of _ s2]) (simp del: rep.simps)
  next
    case False
    let ?sp = "splitPoint mx"
    let ?f = "fresh s"
    have sp: "?sp < length ks'" "?sp \<le> mx" using False splitPoint_bounds[OF mx(2)] len_ks' by auto
    let ?ts1 = "take (Suc ?sp) ts'" and ?ts2 = "drop (Suc ?sp) ts'"
    let ?ks1 = "take ?sp ks'" and ?ks2 = "drop (Suc ?sp) ks'"
    have res: "node_ins mx ?f a ks ts i l sep r = (UpI (Nd a ?ks1 ?ts1) (ks' ! ?sp) (Nd ?f ?ks2 ?ts2), Suc ?f)"
      using False i(1) by (simp add: node_ins_def Let_def ins_take_drop ts'_def ks'_def)
    have ts12: "?ts1 @ ?ts2 = ts'" by (rule append_take_drop_id)
    have in1: "\<And>t. t \<in> set ?ts1 \<Longrightarrow> t \<in> set ts'" by (rule in_set_takeD)
    have in2: "\<And>t. t \<in> set ?ts2 \<Longrightarrow> t \<in> set ts'" by (rule in_set_dropD)
    have D12: "distinct (concat (map addrs ?ts1) @ concat (map addrs ?ts2))"
      using Dc by (subst (asm) ts12[symmetric]) (simp del: append_take_drop_id)
    let ?mv = "drop (Suc ?sp) (children n')"
    have mv: "?mv = map addr_of ?ts2" by (simp add: n'_def drop_map)
    have a_f: "a \<noteq> ?f" using F by auto
    have lt_f: "\<And>t b. t \<in> set ts' \<Longrightarrow> b \<in> set (addrs t) \<Longrightarrow> b < ?f" using F by auto
    have mv_ok: "\<forall>c\<in>set ?mv. heap s2 c \<noteq> None \<and> c \<noteq> a \<and> c \<noteq> fresh s2"
    proof
      fix c assume "c \<in> set ?mv"
      then obtain t where t: "t \<in> set ?ts2" "c = addr_of t" unfolding mv by auto
      have "heap s2 c \<noteq> None" using R2[OF in2[OF t(1)]] t(2) by (auto dest: rep_allocated)
      moreover have "c \<noteq> a" using not_a[OF in2[OF t(1)], of c] t(2) addr_of_in_addrs[of t] by simp
      moreover have "c \<noteq> ?f" using lt_f[OF in2[OF t(1)], of c] t(2) addr_of_in_addrs[of t] by auto
      ultimately show "heap s2 c \<noteq> None \<and> c \<noteq> a \<and> c \<noteq> fresh s2" using s2_fields by simp
    qed
    define s3 where "s3 = s2\<lparr>fresh := Suc ?f,
             heap := (\<lambda>b. if b = a then Some (n'\<lparr>keys := take ?sp (keys n'), children := take (Suc ?sp) (children n')\<rparr>)
                        else if b = ?f then Some ((InternalNode mx)\<lparr>keys := drop (Suc ?sp) (keys n'), children := ?mv\<rparr>)
                        else if b \<in> set ?mv
                          then map_option (\<lambda>m. m\<lparr>parent := Some ?f\<rparr>) (heap s2 b)
                        else heap s2 b)\<rparr>"
    have kn': "keys n' = ks'" by (simp add: n'_def)
    have body: "splitInternal_body s2 a = Some (s3, ks' ! ?sp, ?f)"
      using splitInternal_body_eq[OF h2_a, unfolded s2_fields mx(1)] sp(1) mv_ok a_f s2_fields
      by (simp add: kn' s3_def mx(1) del: if_weak_cong)
    have cont: "insertIntoParent s (addr_of l) sep ?ar = insertIntoParent s3 a (ks' ! ?sp) ?f"
      using unfold full False body by simp
    have h3_a: "heap s3 a = Some (n'\<lparr>keys := ?ks1, children := map addr_of ?ts1\<rparr>)"
      by (simp add: s3_def n'_def take_map kn')
    have h3_f: "heap s3 ?f = Some ((InternalNode mx)\<lparr>keys := ?ks2, children := map addr_of ?ts2\<rparr>)"
      using a_f by (simp add: s3_def mv kn')
    have h3_mv: "\<And>b. b \<in> set ?mv \<Longrightarrow> heap s3 b = map_option (\<lambda>m. m\<lparr>parent := Some ?f\<rparr>) (heap s2 b)"
      using mv_ok s2_fields by (simp add: s3_def)
    have h3_other: "\<And>b. b \<noteq> a \<Longrightarrow> b \<noteq> ?f \<Longrightarrow> b \<notin> set ?mv \<Longrightarrow> heap s3 b = heap s2 b"
      by (simp add: s3_def)
    have not_mv1: "\<And>t b. t \<in> set ?ts1 \<Longrightarrow> b \<in> set (addrs t) \<Longrightarrow> b \<notin> set ?mv"
    proof
      fix t b assume t: "t \<in> set ?ts1" "b \<in> set (addrs t)" "b \<in> set ?mv"
      then obtain t' where t': "t' \<in> set ?ts2" "b = addr_of t'" unfolding mv by auto
      then have "b \<in> set (concat (map addrs ?ts2))" using addr_of_in_addrs[of t'] by auto
      moreover have "b \<in> set (concat (map addrs ?ts1))" using t by auto
      ultimately show False using D12 by auto
    qed
    have not_mv2: "\<And>t b. t \<in> set ?ts2 \<Longrightarrow> b \<in> set (addrs t) \<Longrightarrow> b \<noteq> addr_of t \<Longrightarrow> b \<notin> set ?mv"
    proof
      fix t b assume t: "t \<in> set ?ts2" "b \<in> set (addrs t)" "b \<noteq> addr_of t" "b \<in> set ?mv"
      then obtain t' where t': "t' \<in> set ?ts2" "b = addr_of t'" unfolding mv by auto
      have "t = t'"
        using Dc in2[OF t(1)] in2[OF t'(1)] t(2) t'(2) addr_of_in_addrs[of t']
        by (intro distinct_concat_addrs_unique[of ts' t t' b]) auto
      with t t' show False by simp
    qed
    have R3_1: "\<And>t. t \<in> set ?ts1 \<Longrightarrow> rep (heap s3) mx (Some a) t"
    proof -
      fix t assume t: "t \<in> set ?ts1"
      have "\<forall>b\<in>set (addrs t). same_but_prev (heap s2 b) (heap s3 b)"
      proof
        fix b assume b: "b \<in> set (addrs t)"
        have "b \<noteq> a" "b \<noteq> ?f" "b \<notin> set ?mv"
          using not_a[OF in1[OF t] b] lt_f[OF in1[OF t] b] not_mv1[OF t b] by auto
        then show "same_but_prev (heap s2 b) (heap s3 b)" using h3_other by simp
      qed
      with R2[OF in1[OF t]] show "rep (heap s3) mx (Some a) t" by (rule rep_frame)
    qed
    have R3_2: "\<And>t. t \<in> set ?ts2 \<Longrightarrow> rep (heap s3) mx (Some ?f) t"
    proof -
      fix t assume t: "t \<in> set ?ts2"
      obtain m where m: "heap s2 (addr_of t) = Some m"
        using R2[OF in2[OF t]] by (auto dest: rep_allocated)
      have "addr_of t \<in> set ?mv" using t unfolding mv by simp
      then have 1: "heap s3 (addr_of t) = Some (m\<lparr>parent := Some ?f\<rparr>)" using h3_mv m by simp
      have 2: "\<forall>b\<in>set (addrs t). b \<noteq> addr_of t \<longrightarrow> same_but_prev (heap s2 b) (heap s3 b)"
      proof (intro ballI impI)
        fix b assume b: "b \<in> set (addrs t)" "b \<noteq> addr_of t"
        have "b \<noteq> a" "b \<noteq> ?f" "b \<notin> set ?mv"
          using not_a[OF in2[OF t] b(1)] lt_f[OF in2[OF t] b(1)] not_mv2[OF t b] by auto
        then show "same_but_prev (heap s2 b) (heap s3 b)" using h3_other by simp
      qed
      have "distinct (addrs t)" using Dc in2[OF t] by (auto simp: distinct_concat_iff)
      with R2[OF in2[OF t]] show "rep (heap s3) mx (Some ?f) t" using m 1 2 by (rule rep_reparent)
    qed
    have "rep (heap s3) mx par (Nd a ?ks1 ?ts1)"
      using h3_a pn R3_1 by (simp add: n'_def)
    moreover have "rep (heap s3) mx None (Nd ?f ?ks2 ?ts2)"
      using h3_f R3_2 by (simp add: InternalNode_def)
    moreover have "frame s s3 ?A"
    proof -
      have "\<And>b. b \<notin> ?A \<Longrightarrow> b < ?f \<Longrightarrow> heap s3 b = heap s b"
      proof -
        fix b assume b: "b \<notin> ?A" "b < ?f"
        have "b \<notin> set ?mv"
        proof
          assume "b \<in> set ?mv"
          then obtain t where "t \<in> set ?ts2" "b = addr_of t" unfolding mv by auto
          then have "b \<in> set (concat (map addrs ts'))" using in2 addr_of_in_addrs[of t] by auto
          with b show False by simp
        qed
        then have "heap s3 b = heap s2 b" using b by (intro h3_other) auto
        then show "heap s3 b = heap s b" using frame2[OF b(1)] by simp
      qed
      then show ?thesis using s2_fields by (simp add: frame_def s3_def)
    qed
    moreover have "fresh s3 = Suc ?f" by (simp add: s3_def)
    moreover have "next_same s s3"
    proof -
      have "\<And>b. b < ?f \<Longrightarrow> map_option next_leaf (heap s3 b) = map_option next_leaf (heap s b)"
      proof -
        fix b assume b: "b < ?f"
        have "map_option next_leaf (heap s3 b) = map_option next_leaf (heap s2 b)"
          using b h2_a by (cases "heap s2 b") (auto simp: s3_def)
        then show "map_option next_leaf (heap s3 b) = map_option next_leaf (heap s b)"
          using next2 by simp
      qed
      then show ?thesis by (simp add: next_same_def)
    qed
    ultimately show ?thesis using res cont unfolding ts'_def[symmetric] by (intro exI[of _ s3]) (simp del: rep.simps)
  qed
qed

lemma bpt_insert_nonempty:
  "root s = Some r \<Longrightarrow> bpt_insert s key val = do { leaf \<leftarrow> findLeaf s key; insert_leaf s leaf key val }"
  by (simp add: bpt_insert_def insert_leaf_def)

lemma splitLeaf_fold:
  "splitLeaf s leaf =
     do { n \<leftarrow> heap s leaf;
          let (newLeaf, s1) = new_node s (LeafNode (maxKeys s));
          let sp = splitPoint (maxKeys s);
          nl \<leftarrow> heap s1 newLeaf;
          let s2 = store s1 newLeaf (nl\<lparr>keys := drop sp (keys n),
                                        vals := drop sp (vals n),
                                        next_leaf := next_leaf n,
                                        prev_leaf := Some leaf\<rparr>);
          let s3 = store s2 leaf (n\<lparr>keys := take sp (keys n),
                                    vals := take sp (vals n)\<rparr>);
          s4 \<leftarrow> (case next_leaf n of
                  None \<Rightarrow> Some s3
                | Some nx \<Rightarrow> do { nxn \<leftarrow> heap s3 nx;
                                  Some (store s3 nx (nxn\<lparr>prev_leaf := Some newLeaf\<rparr>)) });
          l4 \<leftarrow> heap s4 leaf;
          let s5 = store s4 leaf (l4\<lparr>next_leaf := Some newLeaf\<rparr>);
          nl5 \<leftarrow> heap s5 newLeaf;
          promoteKey \<leftarrow> nth_opt (keys nl5) 0;
          insertIntoParent s5 leaf promoteKey newLeaf }"
  by (simp add: splitLeaf_def splitPoint_def)

lemma splitLeaf_eq:
  assumes n: "heap s a = Some n" and a: "a \<noteq> fresh s"
    and sp: "splitPoint (maxKeys s) < length (keys n)"
    and nx: "\<forall>b. next_leaf n = Some b \<longrightarrow> b \<noteq> a \<and> b \<noteq> fresh s \<and> heap s b \<noteq> None"
  shows "splitLeaf s a =
           insertIntoParent (split_leaf_state s a n) a (keys n ! splitPoint (maxKeys s)) (fresh s)"
proof (cases "next_leaf n")
  case None
  have "split_leaf_state s a n =
      s\<lparr>fresh := Suc (fresh s),
        heap := (heap s)(fresh s \<mapsto> (LeafNode (maxKeys s))\<lparr>keys := drop (splitPoint (maxKeys s)) (keys n),
                                                  vals := drop (splitPoint (maxKeys s)) (vals n),
                                                  next_leaf := next_leaf n,
                                                  prev_leaf := Some a\<rparr>,
                  a \<mapsto> n\<lparr>keys := take (splitPoint (maxKeys s)) (keys n),
                                            vals := take (splitPoint (maxKeys s)) (vals n),
                                            next_leaf := Some (fresh s)\<rparr>)\<rparr>"
    using None by (auto simp: split_leaf_state_def fun_eq_iff intro!: arg_cong[where f = "\<lambda>h. s\<lparr>fresh := Suc (fresh s), heap := h\<rparr>"])
  then show ?thesis
    unfolding splitLeaf_fold using n a sp None
    by (simp add: Let_def new_node_def store_def hd_drop_conv_nth)
next
  case (Some b)
  with nx obtain nxn where b: "b \<noteq> a" "b \<noteq> fresh s" "heap s b = Some nxn" by auto
  have "split_leaf_state s a n =
      s\<lparr>fresh := Suc (fresh s),
        heap := (heap s)(fresh s \<mapsto> (LeafNode (maxKeys s))\<lparr>keys := drop (splitPoint (maxKeys s)) (keys n),
                                                  vals := drop (splitPoint (maxKeys s)) (vals n),
                                                  next_leaf := next_leaf n,
                                                  prev_leaf := Some a\<rparr>,
                  a \<mapsto> n\<lparr>keys := take (splitPoint (maxKeys s)) (keys n),
                                            vals := take (splitPoint (maxKeys s)) (vals n)\<rparr>,
                  b \<mapsto> nxn\<lparr>prev_leaf := Some (fresh s)\<rparr>,
                  a \<mapsto> n\<lparr>keys := take (splitPoint (maxKeys s)) (keys n),
                                            vals := take (splitPoint (maxKeys s)) (vals n),
                                            next_leaf := Some (fresh s)\<rparr>)\<rparr>"
    using Some b by (auto simp: split_leaf_state_def fun_eq_iff intro!: arg_cong[where f = "\<lambda>h. s\<lparr>fresh := Suc (fresh s), heap := h\<rparr>"])
  then show ?thesis
    unfolding splitLeaf_fold using n a sp Some b
    by (simp add: Let_def new_node_def store_def hd_drop_conv_nth)
qed

lemma rep_LfD:
  assumes "rep h mx par (Lf a ks vs)"
  obtains n where "h a = Some n" "isLeaf n" "keys n = ks" "vals n = vs" "parent n = par" "nmaxKeys n = mx"
  using assms by (auto split: option.splits)

lemma rep_NdD:
  assumes "rep h mx par (Nd a ks ts)"
  obtains n where "h a = Some n" "\<not> isLeaf n" "keys n = ks" "children n = map addr_of ts"
    "parent n = par" "nmaxKeys n = mx" "\<And>t. t \<in> set ts \<Longrightarrow> rep h mx (Some a) t"
  using assms by (auto split: option.splits)

lemma leaf_ins_refine:
  fixes s :: "('k::linorder, 'v) BPlusTree"
  assumes rp: "rep (heap s) mx par (Lf a ks vs)" and af: "a < fresh s"
    and srt: "sorted_wrt (<) ks" and len: "length vs = length ks" "length ks \<le> mx"
    and mx: "maxKeys s = mx" "1 \<le> mx"
    and ch: "nchain (heap s) [a] nx"
    and nxok: "\<forall>b. nx = Some b \<longrightarrow> b \<noteq> a \<and> b < fresh s \<and> heap s b \<noteq> None"
  shows "\<exists>s'. insert_leaf s a k v = up_cont s' (fst (leaf_ins mx (fresh s) k v a ks vs)) \<and>
           rep_up (heap s') mx par (fst (leaf_ins mx (fresh s) k v a ks vs)) \<and>
           frame s s' {a} \<and> fresh s' = snd (leaf_ins mx (fresh s) k v a ks vs) \<and>
           nchain (heap s') (up_leaves (fst (leaf_ins mx (fresh s) k v a ks vs))) nx"
proof -
  obtain n where n: "heap s a = Some n" "isLeaf n" "keys n = ks" "vals n = vs" "parent n = par" "nmaxKeys n = mx"
    using rp by (rule rep_LfD)
  have nxt: "next_leaf n = nx" using ch n by simp
  let ?p = "pos_of ks k"
  have pos: "findKeyPosition n k = ?p"
    using srt n(3) by (simp add: findKeyPosition_def numKeys_def findKeyPosition_pos_of)
  from srt show ?thesis
  proof (cases rule: leaf_ins_cases[where k = k and mx = mx and f = "fresh s" and v = v and a = a and vs = vs])
    case upd
    let ?s = "store s a (n\<lparr>vals := vs[?p := v]\<rparr>)"
    have "insert_leaf s a k v = Some ?s"
      using n pos upd by (simp add: insert_leaf_def numKeys_def)
    moreover have "rep (heap ?s) mx par (Lf a ks (vs[?p := v]))" using n by (simp add: store_def)
    moreover have "frame s ?s {a}" by (simp add: frame_def store_def)
    moreover have "nchain (heap ?s) [a] nx" using nxt by (simp add: store_def)
    ultimately show ?thesis using upd(3) by (intro exI[of _ ?s]) (simp add: up_leaves_def store_def)
  next
    case new
    let ?s = "store s a (insertAt n ?p k v)"
    have nk: "\<not> (?p < length ks \<and> ks ! ?p = k)" using new(1) by (metis nth_mem)
    have "insert_leaf s a k v = Some ?s"
      using n pos new nk by (auto simp: insert_leaf_def numKeys_def isFull_def insertAt_def Let_def)
    moreover have "rep (heap ?s) mx par (Lf a (insert_at ?p k ks) (insert_at ?p v vs))"
      using n by (simp add: store_def insertAt_def)
    moreover have "frame s ?s {a}" by (simp add: frame_def store_def)
    moreover have "nchain (heap ?s) [a] nx" using nxt by (simp add: store_def insertAt_def)
    ultimately show ?thesis using new(3) by (intro exI[of _ ?s]) (simp add: up_leaves_def store_def)
  next
    case split
    let ?n1 = "insertAt n ?p k v"
    let ?s1 = "store s a ?n1"
    let ?sp = "splitPoint mx"
    let ?f = "fresh s"
    let ?ks = "insert_at ?p k ks" and ?vs = "insert_at ?p v vs"
    have nk: "\<not> (?p < length ks \<and> ks ! ?p = k)" using split(1) by (metis nth_mem)
    have sp: "?sp < length ?ks" using split(2) splitPoint_bounds[OF mx(2)] by simp
    have n1: "heap ?s1 a = Some ?n1" "keys ?n1 = ?ks" "vals ?n1 = ?vs" "next_leaf ?n1 = nx"
      "fresh ?s1 = ?f" "maxKeys ?s1 = mx"
      using nxt n mx by (simp_all add: store_def insertAt_def)
    have 1: "insert_leaf s a k v = splitLeaf ?s1 a"
      using n pos split nk by (auto simp: insert_leaf_def numKeys_def isFull_def insertAt_def Let_def)
    have nx1: "\<forall>b. next_leaf ?n1 = Some b \<longrightarrow> b \<noteq> a \<and> b \<noteq> fresh ?s1 \<and> heap ?s1 b \<noteq> None"
      using nxok n1(4,5) by (auto simp: store_def)
    define s5 where "s5 = split_leaf_state ?s1 a ?n1"
    have 2: "splitLeaf ?s1 a = insertIntoParent s5 a (?ks ! ?sp) ?f"
      using splitLeaf_eq[OF n1(1) _ _ nx1] af sp n1 by (simp add: s5_def)
    have h5: "heap s5 a = Some (?n1\<lparr>keys := take ?sp ?ks, vals := take ?sp ?vs, next_leaf := Some ?f\<rparr>)"
      "heap s5 ?f = Some ((LeafNode mx)\<lparr>keys := drop ?sp ?ks, vals := drop ?sp ?vs, next_leaf := nx, prev_leaf := Some a\<rparr>)"
      using af n1 by (simp_all add: s5_def split_leaf_state_def)
    have h5o: "\<And>b. b \<noteq> a \<Longrightarrow> b \<noteq> ?f \<Longrightarrow> same_but_prev (heap s b) (heap s5 b)"
    proof -
      fix b assume b: "b \<noteq> a" "b \<noteq> ?f"
      show "same_but_prev (heap s b) (heap s5 b)"
      proof (cases "nx = Some b")
        case True
        then obtain m where "heap s b = Some m" using nxok by auto
        then show ?thesis using b True n1
          by (auto simp: s5_def split_leaf_state_def same_but_prev_def store_def)
      next
        case False
        then show ?thesis using b n1 by (simp add: s5_def split_leaf_state_def store_def)
      qed
    qed
    have f5: "fresh s5 = Suc ?f" "root s5 = root s" "maxKeys s5 = maxKeys s" "minKeys s5 = minKeys s"
      by (simp_all add: s5_def split_leaf_state_def store_def)
    have "rep (heap s5) mx par (Lf a (take ?sp ?ks) (take ?sp ?vs))"
      using h5(1) n by (simp add: insertAt_def)
    moreover have "rep (heap s5) mx None (Lf ?f (drop ?sp ?ks) (drop ?sp ?vs))"
      using h5(2) by (simp add: LeafNode_def)
    moreover have "frame s s5 {a}" using h5o f5 by (auto simp: frame_def)
    moreover have "nchain (heap s5) [a, ?f] nx" using h5 by simp
    ultimately show ?thesis using split(3) 1 2 f5
      by (intro exI[of _ s5]) (simp add: up_leaves_def)
  qed
qed

lemma frame_mono: "frame s s' A \<Longrightarrow> A \<subseteq> B \<Longrightarrow> frame s s' B"
  by (auto simp: frame_def)

lemma frame_trans:
  assumes "frame s s1 A" "frame s1 s2 B" "fresh s \<le> fresh s1"
    "\<forall>b\<in>B. b < fresh s \<longrightarrow> b \<in> C" "A \<subseteq> C"
  shows "frame s s2 C"
  unfolding frame_def
proof (intro conjI allI impI)
  fix b assume b: "b \<notin> C" "b < fresh s"
  then have "same_but_prev (heap s b) (heap s1 b)" using assms(1,5) by (auto simp: frame_def)
  moreover have "same_but_prev (heap s1 b) (heap s2 b)"
    using assms(2,3,4) b by (auto simp: frame_def)
  ultimately show "same_but_prev (heap s b) (heap s2 b)" by (rule same_but_prev_trans)
qed (use assms in \<open>auto simp: frame_def\<close>)

lemma frame_rep:
  assumes "frame s s' A" "rep (heap s) mx par t" "set (addrs t) \<inter> A = {}" "\<forall>b\<in>set (addrs t). b < fresh s"
  shows "rep (heap s') mx par t"
  using assms(2)
proof (rule rep_frame)
  show "\<forall>a\<in>set (addrs t). same_but_prev (heap s a) (heap s' a)"
    using assms(1,3,4) by (auto simp: frame_def)
qed

lemma frame_nchain:
  assumes "frame s s' A" "nchain (heap s) ls nx" "set ls \<inter> A = {}" "\<forall>b\<in>set ls. b < fresh s"
  shows "nchain (heap s') ls nx"
  using assms(2)
proof (rule nchain_frame)
  show "\<forall>a\<in>set ls. map_option next_leaf (heap s' a) = map_option next_leaf (heap s a)"
    using assms(1,3,4) by (auto simp: frame_def intro: same_but_prev_next)
qed

lemma next_same_nchain:
  assumes "next_same s s'" "nchain (heap s) ls nx" "\<forall>b\<in>set ls. b < fresh s"
  shows "nchain (heap s') ls nx"
  using assms(2)
proof (rule nchain_frame)
  show "\<forall>a\<in>set ls. map_option next_leaf (heap s' a) = map_option next_leaf (heap s a)"
    using assms(1,3) by (auto simp: next_same_def)
qed

text \<open>The promoted key lies strictly between the separators around the child
  that was split.\<close>

lemma sep_bounds:
  assumes o: "ordered (Nd a ks ts)" and len: "length ts = Suc (length ks)"
    and i: "i = findChildIndex_loop ks k"
    and u: "up_ordered (UpI l sep r)"
    and sub: "up_keys (UpI l sep r) \<subseteq> insert k (allkeys (ts ! i))"
  shows "pos_of ks sep = i"
proof -
  note s = ordered_NdD(1)[OF o]
  note b = child_index_bounds[OF s i]
  have il: "i < length ts" "i \<le> length ks" using b(1) len by auto
  have in_range: "\<And>x. x \<in> insert k (allkeys (ts ! i)) \<Longrightarrow> (\<forall>j<i. ks ! j \<le> x) \<and> (\<forall>j. i \<le> j \<longrightarrow> j < length ks \<longrightarrow> x < ks ! j)"
  proof -
    fix x assume "x \<in> insert k (allkeys (ts ! i))"
    then consider "x = k" | "x \<in> allkeys (ts ! i)" by auto
    then show "(\<forall>j<i. ks ! j \<le> x) \<and> (\<forall>j. i \<le> j \<longrightarrow> j < length ks \<longrightarrow> x < ks ! j)"
    proof cases
      case 1
      have "\<And>j. i \<le> j \<Longrightarrow> j < length ks \<Longrightarrow> k < ks ! j"
      proof -
        fix j assume j: "i \<le> j" "j < length ks"
        then have "k < ks ! i" using b(3) by simp
        also have "ks ! i \<le> ks ! j" using j s by (intro strict_sorted_nth_le)
        finally show "k < ks ! j" .
      qed
      with 1 b(2) show ?thesis by auto
    next
      case 2
      then show ?thesis
        using ordered_below[OF o _ _ 2] ordered_above[OF o _ _ 2] il by auto
    qed
  qed
  obtain y where y: "y \<in> allkeys l" "y < sep" using u by auto
  have sep_in: "sep \<in> insert k (allkeys (ts ! i))" "y \<in> insert k (allkeys (ts ! i))"
    using sub y by auto
  have sep_lo: "\<forall>j<i. ks ! j < sep"
    using in_range[OF sep_in(2)] y(2) by (meson le_less_trans)
  have sep_hi: "\<forall>j. i \<le> j \<longrightarrow> j < length ks \<longrightarrow> sep \<le> ks ! j"
    using in_range[OF sep_in(1)] by (simp add: less_imp_le)
  show ?thesis using s il(2) sep_lo sep_hi by (rule pos_of_unique)
qed

lemma findLeaf_loop_Nd:
  assumes "heap s a = Some n" "\<not> isLeaf n" "keys n = ks" "children n = map addr_of ts"
    "i = findChildIndex_loop ks k" "i < length ts"
  shows "findLeaf_loop s a k = findLeaf_loop s (addr_of (ts ! i)) k"
  using assms by (subst findLeaf_loop.simps) (simp add: findChildIndex_def)

lemma findLeaf_loop_Lf:
  assumes "heap s a = Some n" "isLeaf n"
  shows "findLeaf_loop s a k = Some a"
  using assms by (subst findLeaf_loop.simps) simp

lemma ins_refine:
  fixes s :: "('k::linorder, 'v) BPlusTree"
  assumes "rep (heap s) mx par t" "distinct (addrs t)" "\<forall>a\<in>set (addrs t). a < fresh s"
    "ordered t" "counts lo mn mx t" "maxKeys s = mx" "1 \<le> mx" "mn = mx div 2"
    "nchain (heap s) (leaves t) nx"
    "\<forall>b. nx = Some b \<longrightarrow> b \<notin> set (addrs t) \<and> b < fresh s \<and> heap s b \<noteq> None"
  shows "\<exists>leaf s'. findLeaf_loop s (addr_of t) k = Some leaf \<and>
           insert_leaf s leaf k v = up_cont s' (fst (ins mx (fresh s) k v t)) \<and>
           rep_up (heap s') mx par (fst (ins mx (fresh s) k v t)) \<and>
           frame s s' (set (addrs t)) \<and> fresh s' = snd (ins mx (fresh s) k v t) \<and>
           nchain (heap s') (up_leaves (fst (ins mx (fresh s) k v t))) nx"
  using assms
proof (induction t arbitrary: par lo nx)
  case (Lf a ks vs)
  obtain n where n: "heap s a = Some n" "isLeaf n" using Lf.prems(1) by (rule rep_LfD)
  have "\<exists>s'. insert_leaf s a k v = up_cont s' (fst (leaf_ins mx (fresh s) k v a ks vs)) \<and>
           rep_up (heap s') mx par (fst (leaf_ins mx (fresh s) k v a ks vs)) \<and>
           frame s s' {a} \<and> fresh s' = snd (leaf_ins mx (fresh s) k v a ks vs) \<and>
           nchain (heap s') (up_leaves (fst (leaf_ins mx (fresh s) k v a ks vs))) nx"
    using Lf.prems by (intro leaf_ins_refine) auto
  then show ?case using findLeaf_loop_Lf[OF n] by auto
next
  case (Nd a ks ts)
  note prems = Nd.prems
  obtain n where n: "heap s a = Some n" "\<not> isLeaf n" "keys n = ks" "children n = map addr_of ts"
    "parent n = par" "nmaxKeys n = mx" and reps0: "\<forall>t\<in>set ts. rep (heap s) mx (Some a) t"
    using prems(1) by (auto split: option.splits)
  have reps: "\<And>t. t \<in> set ts \<Longrightarrow> rep (heap s) mx (Some a) t" using reps0 by blast
  define i where "i = findChildIndex_loop ks k"
  have len: "length ts = Suc (length ks)" using prems(5) by simp
  have il: "i < length ts" "i \<le> length ks"
    using findChildIndex_loop_le[of ks k] len by (auto simp: i_def)
  define c where "c = ts ! i"
  have mem: "c \<in> set ts" using il by (simp add: c_def)
  define B where "B = take i ts"
  define A where "A = drop (Suc i) ts"
  have ts: "ts = B @ c # A" unfolding B_def A_def c_def using il(1) by (rule id_take_drop)
  have BA_mem: "\<And>t. t \<in> set B \<union> set A \<Longrightarrow> t \<in> set ts" using ts by auto
  define aB where "aB = concat (map addrs B)"
  define aA where "aA = concat (map addrs A)"
  define lB where "lB = concat (map leaves B)"
  define lA where "lA = concat (map leaves A)"
  have addrs_t: "addrs (Nd a ks ts) = a # aB @ addrs c @ aA" by (simp add: ts aB_def aA_def)
  have leaves_t: "leaves (Nd a ks ts) = lB @ leaves c @ lA" by (simp add: ts lB_def lA_def)
  have D: "distinct (a # aB @ addrs c @ aA)" and F: "\<forall>x\<in>set (a # aB @ addrs c @ aA). x < fresh s"
    using prems(2,3) unfolding addrs_t by blast+
  have Dc: "distinct (addrs c)" and Fc: "\<forall>x\<in>set (addrs c). x < fresh s"
    and a_c: "a \<notin> set (addrs c)" and a_f: "a < fresh s"
    and B_c: "set aB \<inter> set (addrs c) = {}" and A_c: "set aA \<inter> set (addrs c) = {}"
    and FB: "\<forall>x\<in>set aB. x < fresh s" and FA: "\<forall>x\<in>set aA. x < fresh s"
    using D F by auto
  have sub_aB: "\<And>t. t \<in> set B \<Longrightarrow> set (addrs t) \<subseteq> set aB"
    and sub_aA: "\<And>t. t \<in> set A \<Longrightarrow> set (addrs t) \<subseteq> set aA"
    by (auto simp: aB_def aA_def)
  have lBA: "set lB \<subseteq> set aB" "set lA \<subseteq> set aA"
    unfolding lB_def lA_def aB_def aA_def using leaves_subset_addrs by fastforce+
  have find: "findLeaf_loop s a k = findLeaf_loop s (addr_of c) k"
    unfolding c_def using n(1-4) i_def il(1) by (rule findLeaf_loop_Nd)
  \<comment> \<open>the chain around the child\<close>
  have chain: "nchain (heap s) lB (hdo (leaves c @ lA) nx)" "nchain (heap s) (leaves c) (hdo lA nx)"
    "nchain (heap s) lA nx"
    using prems(9) unfolding leaves_t by (simp_all add: nchain_append hdo_append)
  have cnt_c: "counts mn mn mx c" using prems(5) mem by simp
  have ord_c: "ordered c" using prems(4) mem by simp
  have nxc: "\<forall>b. hdo lA nx = Some b \<longrightarrow> b \<notin> set (addrs c) \<and> b < fresh s \<and> heap s b \<noteq> None"
  proof (intro allI impI)
    fix b assume b: "hdo lA nx = Some b"
    show "b \<notin> set (addrs c) \<and> b < fresh s \<and> heap s b \<noteq> None"
    proof (cases "lA = []")
      case True
      have "nx = Some b" using b unfolding True by simp
      then have "b \<notin> set (addrs (Nd a ks ts))" "b < fresh s" "heap s b \<noteq> None"
        using prems(10) by blast+
      then show ?thesis unfolding addrs_t by simp
    next
      case False
      then have bl: "b \<in> set lA" using b by (cases lA) auto
      then have "b \<in> set aA" using lBA by blast
      then have "b \<notin> set (addrs c)" "b < fresh s" using A_c FA by blast+
      then show ?thesis using nchain_allocated[OF chain(3) bl] by simp
    qed
  qed
  obtain u f1 where u: "ins mx (fresh s) k v c = (u, f1)" by (cases "ins mx (fresh s) k v c")
  have "\<exists>leaf s'. findLeaf_loop s (addr_of c) k = Some leaf \<and>
           insert_leaf s leaf k v = up_cont s' (fst (ins mx (fresh s) k v c)) \<and>
           rep_up (heap s') mx (Some a) (fst (ins mx (fresh s) k v c)) \<and>
           frame s s' (set (addrs c)) \<and> fresh s' = snd (ins mx (fresh s) k v c) \<and>
           nchain (heap s') (up_leaves (fst (ins mx (fresh s) k v c))) (hdo lA nx)"
    using mem reps[OF mem] Dc Fc ord_c cnt_c prems(6,7,8) chain(2) nxc
    by (rule Nd.IH[of c "Some a" mn "hdo lA nx"])
  then obtain leaf s1 where IH: "findLeaf_loop s (addr_of c) k = Some leaf"
    "insert_leaf s leaf k v = up_cont s1 u" "rep_up (heap s1) mx (Some a) u"
    "frame s s1 (set (addrs c))" "fresh s1 = f1" "nchain (heap s1) (up_leaves u) (hdo lA nx)"
    unfolding u fst_conv snd_conv by blast
  \<comment> \<open>facts about the result for the child\<close>
  have ia: "fresh s \<le> f1" "distinct (up_addrs u)" "set (up_addrs u) \<subseteq> set (addrs c) \<union> {fresh s..<f1}"
    using ins_addrs[OF cnt_c prems(7) Dc Fc, of k v] unfolding u fst_conv snd_conv by blast+
  note rm = distinct_replace_middle[OF D F ia]
  have hdl: "hd (up_leaves u) = hd (leaves c)" "up_leaves u \<noteq> []"
    using ins_hd_leaves[OF ord_c cnt_c prems(7,8), of "fresh s" k v] unfolding u fst_conv by blast+
  have lc_ne: "leaves c \<noteq> []" using cnt_c by (rule leaves_nonempty)
  have hdo_eq: "hdo (up_leaves u @ lA) nx = hdo (leaves c @ lA) nx"
    using hdl lc_ne by (simp add: hdo_append hdo_nonempty)
  have ok: "up_ordered u" "up_keys u \<subseteq> insert k (allkeys c)"
    using ins_ordered_keys[OF ord_c cnt_c prems(7), of "fresh s" k v] unfolding u fst_conv by blast+
  \<comment> \<open>the parent node and the siblings are untouched\<close>
  have "same_but_prev (heap s a) (heap s1 a)" using IH(4) a_c a_f by (simp add: frame_def)
  then obtain n1 where n1: "heap s1 a = Some n1" "\<not> isLeaf n1" "keys n1 = ks"
    "children n1 = map addr_of ts" "parent n1 = par" "nmaxKeys n1 = mx"
    using n by (auto elim!: same_but_prev_SomeD)
  have sib1: "\<And>t. t \<in> set B \<union> set A \<Longrightarrow> rep (heap s1) mx (Some a) t"
  proof -
    fix t assume t: "t \<in> set B \<union> set A"
    then have "set (addrs t) \<subseteq> set aB \<or> set (addrs t) \<subseteq> set aA" using sub_aB sub_aA by blast
    then have "set (addrs t) \<inter> set (addrs c) = {}" "\<forall>b\<in>set (addrs t). b < fresh s"
      using B_c A_c FB FA by blast+
    with IH(4) reps[OF BA_mem[OF t]] show "rep (heap s1) mx (Some a) t" by (rule frame_rep)
  qed
  have "nchain (heap s1) lB (hdo (leaves c @ lA) nx)"
    using IH(4) chain(1)
  proof (rule frame_nchain)
    show "set lB \<inter> set (addrs c) = {}" using lBA(1) B_c by blast
    show "\<forall>b\<in>set lB. b < fresh s" using lBA(1) FB by blast
  qed
  then have chB: "nchain (heap s1) lB (hdo (up_leaves u @ lA) nx)" unfolding hdo_eq .
  have chA: "nchain (heap s1) lA nx"
    using IH(4) chain(3)
  proof (rule frame_nchain)
    show "set lA \<inter> set (addrs c) = {}" using lBA(2) A_c by blast
    show "\<forall>b\<in>set lA. b < fresh s" using lBA(2) FA by blast
  qed
  have ch1: "nchain (heap s1) (lB @ up_leaves u @ lA) nx"
    using chB IH(6) chA by (simp add: nchain_append hdo_append)
  have addr_c: "addr_of (hd (up_trees u)) = addr_of c"
    using ins_addr_of[OF cnt_c prems(7), of "fresh s" k v] unfolding u fst_conv by simp
  have mx1: "maxKeys s1 = mx" using IH(4) prems(6) by (simp add: frame_def)
  have frame_t: "frame s s1 (set (addrs (Nd a ks ts)))"
    using IH(4) unfolding addrs_t by (rule frame_mono) auto
  show ?case
  proof (cases u)
    case (TI c')
    have res: "ins mx (fresh s) k v (Nd a ks ts) = (TI (Nd a ks (B @ c' # A)), f1)"
      using u TI il(1) by (simp add: i_def[symmetric] c_def[symmetric] upd_take_drop B_def A_def)
    have "rep (heap s1) mx (Some a) c'" "addr_of c' = addr_of c" using IH(3) addr_c TI by simp_all
    then have "rep (heap s1) mx par (Nd a ks (B @ c' # A))"
      using n1 sib1 by (auto simp: ts)
    moreover have "up_leaves (TI (Nd a ks (B @ c' # A))) = lB @ up_leaves u @ lA"
      using TI by (simp add: up_leaves_def lB_def lA_def)
    ultimately have "findLeaf_loop s (addr_of (Nd a ks ts)) k = Some leaf \<and>
        insert_leaf s leaf k v = up_cont s1 (TI (Nd a ks (B @ c' # A))) \<and>
        rep_up (heap s1) mx par (TI (Nd a ks (B @ c' # A))) \<and>
        frame s s1 (set (addrs (Nd a ks ts))) \<and> fresh s1 = f1 \<and>
        nchain (heap s1) (up_leaves (TI (Nd a ks (B @ c' # A)))) nx"
      using find IH(1,2,5) TI frame_t ch1 by (simp del: rep.simps addrs.simps)
    then show ?thesis unfolding res fst_conv snd_conv by blast
  next
    case (UpI l sep r)
    have res: "ins mx (fresh s) k v (Nd a ks ts) = node_ins mx f1 a ks ts i l sep r"
      using u UpI il(1) by (simp add: i_def[symmetric] c_def[symmetric])
    have ua: "up_addrs u = addrs l @ addrs r" and ul: "up_leaves u = leaves l @ leaves r"
      using UpI by (simp_all add: up_addrs_def up_leaves_def)
    have eqa: "a # concat (map addrs (take i ts @ l # r # drop (Suc i) ts)) = a # aB @ up_addrs u @ aA"
      by (simp add: ua aB_def aA_def B_def A_def)
    have eql: "concat (map leaves (take i ts @ l # r # drop (Suc i) ts)) = lB @ up_leaves u @ lA"
      by (simp add: ul lB_def lA_def B_def A_def)
    have pos: "pos_of ks sep = i"
      using prems(4) len i_def ok[unfolded UpI c_def] by (rule sep_bounds)
    have "\<exists>s'. insertIntoParent s1 (addr_of l) sep (addr_of r) =
              up_cont s' (fst (node_ins mx (fresh s1) a ks ts i l sep r)) \<and>
           rep_up (heap s') mx par (fst (node_ins mx (fresh s1) a ks ts i l sep r)) \<and>
           frame s1 s' (set (a # concat (map addrs (take i ts @ l # r # drop (Suc i) ts)))) \<and>
           fresh s' = snd (node_ins mx (fresh s1) a ks ts i l sep r) \<and> next_same s1 s'"
    proof (rule node_ins_refine[OF n1])
      show "rep (heap s1) mx (Some a) l" "rep (heap s1) mx None r" using IH(3) UpI by simp_all
      show "\<forall>t\<in>set (take i ts) \<union> set (drop (Suc i) ts). rep (heap s1) mx (Some a) t"
        using sib1 unfolding B_def A_def by blast
      show "addr_of l = addr_of (ts ! i)" using addr_c UpI by (simp add: c_def)
      show "distinct (a # concat (map addrs (take i ts @ l # r # drop (Suc i) ts)))"
        unfolding eqa by (rule rm(1))
      show "\<forall>x\<in>set (a # concat (map addrs (take i ts @ l # r # drop (Suc i) ts))). x < fresh s1"
        unfolding eqa IH(5) by (rule rm(2))
      show "i < length ts" by (rule il(1))
      show "length ts = Suc (length ks)" by (rule len)
      show "pos_of ks sep = i" by (rule pos)
      show "maxKeys s1 = mx" by (rule mx1)
      show "1 \<le> mx" by (rule prems(7))
      show "sorted_wrt (<) ks" using prems(4) by simp
      show "length ks \<le> mx" using prems(5) by simp
    qed
    then obtain s2 where s2: "insertIntoParent s1 (addr_of l) sep (addr_of r) =
              up_cont s2 (fst (node_ins mx f1 a ks ts i l sep r))"
           "rep_up (heap s2) mx par (fst (node_ins mx f1 a ks ts i l sep r))"
           "frame s1 s2 (set (a # aB @ up_addrs u @ aA))"
           "fresh s2 = snd (node_ins mx f1 a ks ts i l sep r)" "next_same s1 s2"
      unfolding eqa IH(5) by blast
    have fr2: "frame s s2 (set (addrs (Nd a ks ts)))"
      using IH(4) s2(3)
    proof (rule frame_trans)
      show "fresh s \<le> fresh s1" using ia(1) IH(5) by simp
      show "\<forall>b\<in>set (a # aB @ up_addrs u @ aA). b < fresh s \<longrightarrow> b \<in> set (addrs (Nd a ks ts))"
        using rm(3) unfolding addrs_t by fastforce
      show "set (addrs c) \<subseteq> set (addrs (Nd a ks ts))" unfolding addrs_t by (simp, blast)
    qed
    have lsub: "set (up_leaves u) \<subseteq> set (up_addrs u)"
      unfolding ul ua using leaves_subset_addrs[of l] leaves_subset_addrs[of r] by auto
    have "\<forall>b\<in>set (lB @ up_leaves u @ lA). b < fresh s1"
    proof
      fix b assume "b \<in> set (lB @ up_leaves u @ lA)"
      then have "b \<in> set (a # aB @ up_addrs u @ aA)" using lBA lsub by auto
      then show "b < fresh s1" using rm(2) IH(5) by blast
    qed
    with s2(5) ch1 have ch2: "nchain (heap s2) (lB @ up_leaves u @ lA) nx"
      by (rule next_same_nchain)
    have "up_leaves (fst (node_ins mx f1 a ks ts i l sep r)) = lB @ up_leaves u @ lA"
      using node_ins_leaves[OF il(1) len prems(7), of f1 a l sep r] unfolding eql .
    then have ch3: "nchain (heap s2) (up_leaves (fst (node_ins mx f1 a ks ts i l sep r))) nx"
      using ch2 by simp
    have "insert_leaf s leaf k v = up_cont s2 (fst (node_ins mx f1 a ks ts i l sep r))"
      using IH(2) UpI s2(1) by simp
    moreover have "findLeaf_loop s (addr_of (Nd a ks ts)) k = Some leaf" using find IH(1) by simp
    ultimately show ?thesis unfolding res using s2(2,4) fr2 ch3 by blast
  qed
qed

lemma params_ok_mn: "params_ok s \<Longrightarrow> minKeys s = maxKeys s div 2 \<and> 1 \<le> maxKeys s \<and> 1 \<le> minKeys s"
  by (auto simp: params_ok_def)

lemma ordered_root:
  assumes "up_ordered (UpI l sep r)"
  shows "ordered (Nd f [sep] [l, r])"
  using assms by (auto simp: less_Suc_eq)

lemma bpt_insert_refine:
  fixes s :: "('k::linorder, 'v) BPlusTree"
  assumes inv: "tree_inv s t"
  shows "\<exists>s'. bpt_insert s k v = Some s' \<and>
           tree_inv s' (fst (tree_ins (maxKeys s) (fresh s) k v t)) \<and>
           fresh s' = snd (tree_ins (maxKeys s) (fresh s) k v t) \<and>
           maxKeys s' = maxKeys s \<and> minKeys s' = minKeys s"
proof -
  define mx where "mx = maxKeys s"
  define mn where "mn = minKeys s"
  have p: "params_ok s" and rt: "root s = Some (addr_of t)" and rp: "rep (heap s) mx None t"
    and D: "distinct (addrs t)" and F: "\<forall>a\<in>set (addrs t). a < fresh s"
    and b: "bal t" and o: "ordered t" and c: "counts 1 mn mx t"
    and ch: "nchain (heap s) (leaves t) None"
    using inv by (simp_all add: tree_inv_def mx_def mn_def)
  have mn: "mn = mx div 2" and mx1: "1 \<le> mx" and mn1: "1 \<le> mn"
    using params_ok_mn[OF p] by (simp_all add: mx_def mn_def)
  obtain u f1 where u: "ins mx (fresh s) k v t = (u, f1)" by (cases "ins mx (fresh s) k v t")
  have "\<exists>leaf s'. findLeaf_loop s (addr_of t) k = Some leaf \<and>
           insert_leaf s leaf k v = up_cont s' (fst (ins mx (fresh s) k v t)) \<and>
           rep_up (heap s') mx None (fst (ins mx (fresh s) k v t)) \<and>
           frame s s' (set (addrs t)) \<and> fresh s' = snd (ins mx (fresh s) k v t) \<and>
           nchain (heap s') (up_leaves (fst (ins mx (fresh s) k v t))) None"
    using rp D F o c mx_def[symmetric] mx1 mn ch by (rule ins_refine) simp
  then obtain leaf s1 where R: "findLeaf_loop s (addr_of t) k = Some leaf"
    "insert_leaf s leaf k v = up_cont s1 u" "rep_up (heap s1) mx None u"
    "frame s s1 (set (addrs t))" "fresh s1 = f1" "nchain (heap s1) (up_leaves u) None"
    unfolding u fst_conv snd_conv by blast
  have run: "bpt_insert s k v = up_cont s1 u"
    using bpt_insert_nonempty[OF rt, of k v] R(1,2) by (simp add: findLeaf_def rt)
  have fr: "root s1 = root s" "maxKeys s1 = mx" "minKeys s1 = mn"
    using R(4) by (simp_all add: frame_def mx_def mn_def)
  have p1: "params_ok s1" using p fr by (simp add: params_ok_def mx_def mn_def)
  have ia: "fresh s \<le> f1" "distinct (up_addrs u)" "set (up_addrs u) \<subseteq> set (addrs t) \<union> {fresh s..<f1}"
    using ins_addrs[OF c mx1 D F, of k v] unfolding u fst_conv snd_conv by blast+
  have Fu: "\<forall>a\<in>set (up_addrs u). a < f1" using ia(1,3) F by fastforce
  have ao: "addr_of (hd (up_trees u)) = addr_of t"
    using ins_addr_of[OF c mx1, of "fresh s" k v] unfolding u fst_conv .
  have bu: "\<forall>t'\<in>set (up_trees u). bal t' \<and> bheight t' = bheight t"
    using ins_bal[OF b c mx1, of "fresh s" k v] unfolding u fst_conv .
  have ou: "up_ordered u" using ins_ordered_keys[OF o c mx1, of "fresh s" k v] unfolding u fst_conv by blast
  have cu: "up_counts 1 mn mx u" using ins_counts[OF o c mx1 mn, of "fresh s" k v] unfolding u fst_conv .
  show ?thesis
  proof (cases u)
    case (TI t')
    have res: "tree_ins mx (fresh s) k v t = (t', f1)" using u TI by (simp add: tree_ins_def)
    have "tree_inv s1 t'"
      unfolding tree_inv_def fr
      using p1 rt fr(1) R(3,6) ia(2) Fu ao bu ou cu TI R(5)
      by (simp add: up_addrs_def up_leaves_def)
    then show ?thesis using run TI R(5) fr unfolding mx_def[symmetric] res mn_def[symmetric] by simp
  next
    case (UpI l sep r)
    have res: "tree_ins mx (fresh s) k v t = (Nd f1 [sep] [l, r], Suc f1)"
      using u UpI by (simp add: tree_ins_def)
    have rl: "rep (heap s1) mx None l" and rr: "rep (heap s1) mx None r" using R(3) UpI by simp_all
    obtain ln where ln: "heap s1 (addr_of l) = Some ln" "parent ln = None" using rl by (rule rep_parent)
    obtain rn where rn: "heap s1 (addr_of r) = Some rn" "parent rn = None" using rr by (rule rep_parent)
    have ua: "up_addrs u = addrs l @ addrs r" and ul: "up_leaves u = leaves l @ leaves r"
      using UpI by (simp_all add: up_addrs_def up_leaves_def)
    have Dl: "distinct (addrs l)" and Dr: "distinct (addrs r)" and dj: "set (addrs l) \<inter> set (addrs r) = {}"
      using ia(2) unfolding ua by auto
    have Fl: "\<forall>a\<in>set (addrs l). a < f1" and Fr: "\<forall>a\<in>set (addrs r). a < f1"
      using Fu unfolding ua by auto
    have al: "addr_of l \<in> set (addrs l)" and ar: "addr_of r \<in> set (addrs r)"
      by (rule addr_of_in_addrs)+
    have ne: "addr_of l \<noteq> addr_of r" "addr_of l \<noteq> fresh s1" "addr_of r \<noteq> fresh s1"
      using al ar dj Fl Fr R(5) by auto
    define h2 where "h2 = (heap s1)(f1 \<mapsto> (InternalNode mx)\<lparr>keys := [sep], children := [addr_of l, addr_of r]\<rparr>,
                               addr_of l \<mapsto> ln\<lparr>parent := Some f1\<rparr>,
                               addr_of r \<mapsto> rn\<lparr>parent := Some f1\<rparr>)"
    define s2 where "s2 = s1\<lparr>heap := h2, fresh := Suc f1, root := Some f1\<rparr>"
    have run2: "insertIntoParent s1 (addr_of l) sep (addr_of r) = Some s2"
      using insertIntoParent_root[OF ln rn(1) ne, of sep] by (simp add: s2_def h2_def fr R(5))
    have h2_root: "h2 f1 = Some ((InternalNode mx)\<lparr>keys := [sep], children := [addr_of l, addr_of r]\<rparr>)"
      using ne R(5) by (simp add: h2_def)
    have h2_l: "h2 (addr_of l) = Some (ln\<lparr>parent := Some f1\<rparr>)" using ne by (simp add: h2_def)
    have h2_r: "h2 (addr_of r) = Some (rn\<lparr>parent := Some f1\<rparr>)" by (simp add: h2_def)
    have h2_other: "\<And>b. b \<noteq> f1 \<Longrightarrow> b \<noteq> addr_of l \<Longrightarrow> b \<noteq> addr_of r \<Longrightarrow> h2 b = heap s1 b"
      by (simp add: h2_def)
    have rl2: "rep h2 mx (Some f1) l"
      using rl Dl ln(1) h2_l
    proof (rule rep_reparent)
      show "\<forall>b\<in>set (addrs l). b \<noteq> addr_of l \<longrightarrow> same_but_prev (heap s1 b) (h2 b)"
        using Fl dj ar h2_other by fastforce
    qed
    have rr2: "rep h2 mx (Some f1) r"
      using rr Dr rn(1) h2_r
    proof (rule rep_reparent)
      show "\<forall>b\<in>set (addrs r). b \<noteq> addr_of r \<longrightarrow> same_but_prev (heap s1 b) (h2 b)"
        using Fr dj al h2_other by fastforce
    qed
    have rep2: "rep h2 mx None (Nd f1 [sep] [l, r])"
      using h2_root rl2 rr2 by (simp add: InternalNode_def)
    have nx: "\<forall>a\<in>set (leaves l @ leaves r). map_option next_leaf (h2 a) = map_option next_leaf (heap s1 a)"
    proof
      fix a assume "a \<in> set (leaves l @ leaves r)"
      then have "a \<in> set (addrs l) \<union> set (addrs r)"
        using leaves_subset_addrs[of l] leaves_subset_addrs[of r] by auto
      then have "a \<noteq> f1" using Fl Fr by auto
      then show "map_option next_leaf (h2 a) = map_option next_leaf (heap s1 a)"
        using ln(1) rn(1) ne(1) by (simp add: h2_def)
    qed
    have ch2: "nchain h2 (leaves l @ leaves r) None"
      using R(6)[unfolded ul] nx by (rule nchain_frame)
    have D2: "distinct (f1 # addrs l @ addrs r)" using ia(2) Fu unfolding ua by auto
    have F2: "\<forall>a\<in>set (f1 # addrs l @ addrs r). a < Suc f1" using Fl Fr by (auto simp: less_Suc_eq)
    have b2: "bal (Nd f1 [sep] [l, r])" using bu UpI by simp
    have o2: "ordered (Nd f1 [sep] [l, r])" using ou unfolding UpI by (rule ordered_root)
    have c2: "counts 1 mn mx (Nd f1 [sep] [l, r])" using cu UpI mx1 by simp
    have "tree_inv s2 (Nd f1 [sep] [l, r])"
      unfolding tree_inv_def
      using p1 rep2 D2 F2 b2 o2 c2 ch2 fr
      by (simp add: s2_def params_ok_def del: rep.simps bal.simps ordered.simps counts.simps)
    moreover have "fresh s2 = Suc f1" "maxKeys s2 = mx" "minKeys s2 = mn" using fr by (simp_all add: s2_def)
    ultimately show ?thesis
      using run run2 UpI unfolding mx_def[symmetric] res mn_def[symmetric] by simp
  qed
qed

lemma bpt_insert_empty:
  assumes "root s = None"
  shows "bpt_insert s k v =
    Some (s\<lparr>heap := (heap s)(fresh s \<mapsto> (LeafNode (maxKeys s))\<lparr>keys := [k], vals := [v]\<rparr>),
            fresh := Suc (fresh s), root := Some (fresh s)\<rparr>)"
  using assms by (simp add: bpt_insert_def new_node_def store_def insertAt_def insert_at_def LeafNode_def)

lemma bpt_insert_empty_inv:
  assumes "root s = None" "params_ok s"
  shows "\<exists>s'. bpt_insert s k v = Some s' \<and> tree_inv s' (Lf (fresh s) [k] [v])"
  using assms unfolding bpt_insert_empty[OF assms(1)]
  by (simp add: tree_inv_def params_ok_def LeafNode_def)

lemma inv_I: "tree_inv s t \<Longrightarrow> inv s"
  by (auto simp: inv_def tree_inv_def)

lemma bpt_insert_inv:
  assumes "inv s"
  shows "\<exists>s'. bpt_insert s k v = Some s' \<and> inv s'"
proof (cases "root s")
  case None
  then have "params_ok s" using assms by (simp add: inv_def)
  from bpt_insert_empty_inv[OF None this, of k v] show ?thesis
    using inv_I by blast
next
  case (Some r)
  then obtain t where "tree_inv s t" using assms by (auto simp: inv_def)
  from bpt_insert_refine[OF this, of k v] show ?thesis
    using inv_I by blast
qed

section \<open>Lookup, and lookup after insertion\<close>

lemma index_of_map_of:
  "length vs = length ks \<Longrightarrow>
     (case index_of ks k of None \<Rightarrow> Some None | Some i \<Rightarrow> do { v \<leftarrow> nth_opt vs i; Some (Some v) })
       = Some (map_of (zip ks vs) k)"
proof (induction ks arbitrary: vs)
  case Nil
  then show ?case by simp
next
  case (Cons x xs)
  then obtain w ws where vs: "vs = w # ws" "length ws = length xs" by (cases vs) auto
  show ?case
  proof (cases "x = k")
    case True
    then show ?thesis by (simp add: vs nth_opt_def)
  next
    case False
    have "nth_opt (w # ws) (Suc i) = nth_opt ws i" for i by (simp add: nth_opt_def)
    then show ?thesis using False Cons.IH[OF vs(2)] by (simp add: vs split: option.splits)
  qed
qed

lemma findValue_map_of:
  assumes "length (vals n) = length (keys n)"
  shows "findValue n k = Some (map_of (zip (keys n) (vals n)) k)"
  using index_of_map_of[OF assms, of k] by (simp add: findValue_def)

lemma sorted_wrt_concat_map:
  "sorted_wrt P (concat xss) \<longleftrightarrow>
     (\<forall>xs\<in>set xss. sorted_wrt P xs) \<and>
     (\<forall>i j. i < j \<longrightarrow> j < length xss \<longrightarrow> (\<forall>x\<in>set (xss ! i). \<forall>y\<in>set (xss ! j). P x y))"
proof (induction xss)
  case Nil
  then show ?case by simp
next
  case (Cons xs xss)
  have a: "(\<forall>i j. i < j \<longrightarrow> j < length (xs # xss) \<longrightarrow> (\<forall>x\<in>set ((xs # xss) ! i). \<forall>y\<in>set ((xs # xss) ! j). P x y))
    \<longleftrightarrow> (\<forall>j < length xss. \<forall>x\<in>set xs. \<forall>y\<in>set (xss ! j). P x y) \<and>
        (\<forall>i j. i < j \<longrightarrow> j < length xss \<longrightarrow> (\<forall>x\<in>set (xss ! i). \<forall>y\<in>set (xss ! j). P x y))"
    (is "?L \<longleftrightarrow> ?R1 \<and> ?R2")
  proof
    assume L: ?L
    have ?R1
    proof (intro allI impI ballI)
      fix j x y assume "j < length xss" "x \<in> set xs" "y \<in> set (xss ! j)"
      then show "P x y" using L[rule_format, of 0 "Suc j" x y] by simp
    qed
    moreover have ?R2
    proof (intro allI impI ballI)
      fix i j x y assume "i < j" "j < length xss" "x \<in> set (xss ! i)" "y \<in> set (xss ! j)"
      then show "P x y" using L[rule_format, of "Suc i" "Suc j" x y] by simp
    qed
    ultimately show "?R1 \<and> ?R2" ..
  next
    assume R: "?R1 \<and> ?R2"
    show ?L
    proof (intro allI impI ballI)
      fix i j x y assume ij: "i < j" "j < length (xs # xss)" "x \<in> set ((xs # xss) ! i)" "y \<in> set ((xs # xss) ! j)"
      then obtain j' where j': "j = Suc j'" by (cases j) auto
      show "P x y"
      proof (cases i)
        case 0
        then show ?thesis using R ij j' by auto
      next
        case (Suc i')
        then show ?thesis using R ij j' by auto
      qed
    qed
  qed
  have b: "(\<forall>x\<in>set xs. \<forall>y\<in>set (concat xss). P x y) \<longleftrightarrow> (\<forall>j < length xss. \<forall>x\<in>set xs. \<forall>y\<in>set (xss ! j). P x y)"
  proof
    assume L: "\<forall>x\<in>set xs. \<forall>y\<in>set (concat xss). P x y"
    show "\<forall>j < length xss. \<forall>x\<in>set xs. \<forall>y\<in>set (xss ! j). P x y"
    proof (intro allI impI ballI)
      fix j x y assume "j < length xss" "x \<in> set xs" "y \<in> set (xss ! j)"
      then have "y \<in> set (concat xss)" using nth_mem[of j xss] by auto
      then show "P x y" using L \<open>x \<in> set xs\<close> by blast
    qed
  next
    assume R: "\<forall>j < length xss. \<forall>x\<in>set xs. \<forall>y\<in>set (xss ! j). P x y"
    show "\<forall>x\<in>set xs. \<forall>y\<in>set (concat xss). P x y"
    proof (intro ballI)
      fix x y assume x: "x \<in> set xs" and "y \<in> set (concat xss)"
      then obtain ys where "ys \<in> set xss" "y \<in> set ys" by auto
      then obtain j where "j < length xss" "xss ! j = ys" by (auto simp: in_set_conv_nth)
      then show "P x y" using R x \<open>y \<in> set ys\<close> by blast
    qed
  qed
  have "sorted_wrt P (concat (xs # xss)) \<longleftrightarrow>
      sorted_wrt P xs \<and> sorted_wrt P (concat xss) \<and> (\<forall>x\<in>set xs. \<forall>y\<in>set (concat xss). P x y)"
    by (simp add: sorted_wrt_append)
  also have "\<dots> \<longleftrightarrow> (\<forall>ys\<in>set (xs # xss). sorted_wrt P ys) \<and>
     ((\<forall>j < length xss. \<forall>x\<in>set xs. \<forall>y\<in>set (xss ! j). P x y) \<and>
        (\<forall>i j. i < j \<longrightarrow> j < length xss \<longrightarrow> (\<forall>x\<in>set (xss ! i). \<forall>y\<in>set (xss ! j). P x y)))"
    unfolding Cons.IH b by auto
  finally show ?case unfolding a .
qed

lemma entries_sorted:
  assumes "ordered t" "counts lo mn mx t"
  shows "sorted_wrt (<) (map fst (entries t))"
  using assms
proof (induction t arbitrary: lo)
  case (Lf a ks vs)
  then show ?case by simp
next
  case (Nd a ks ts)
  have len: "length ts = Suc (length ks)" using Nd.prems(2) by simp
  define xss where "xss = map (\<lambda>t. map fst (entries t)) ts"
  have lx: "length xss = length ts" by (simp add: xss_def)
  have nx: "\<And>i. i < length ts \<Longrightarrow> xss ! i = map fst (entries (ts ! i))" by (simp add: xss_def)
  have 1: "\<forall>xs\<in>set xss. sorted_wrt (<) xs"
  proof
    fix xs assume "xs \<in> set xss"
    then obtain t where t: "t \<in> set ts" "xs = map fst (entries t)" by (auto simp: xss_def)
    have "ordered t" using t(1) Nd.prems(1) by simp
    moreover have "counts mn mn mx t" using t(1) Nd.prems(2) by simp
    ultimately show "sorted_wrt (<) xs" unfolding t(2) by (rule Nd.IH[OF t(1)])
  qed
  have 2: "\<forall>i j. i < j \<longrightarrow> j < length xss \<longrightarrow> (\<forall>x\<in>set (xss ! i). \<forall>y\<in>set (xss ! j). x < y)"
  proof (intro allI impI ballI)
    fix i j x y
    assume ij: "i < j" "j < length xss" and x: "x \<in> set (xss ! i)" and y: "y \<in> set (xss ! j)"
    have jl: "j < length ts" "i < length ts" using ij lx by auto
    have "x \<in> set (map fst (entries (ts ! i)))" using x unfolding nx[OF jl(2)] .
    then have xa: "x \<in> allkeys (ts ! i)"
      using fst_entries_allkeys[of "ts ! i"] by (simp only: set_map) (rule subsetD)
    have "y \<in> set (map fst (entries (ts ! j)))" using y unfolding nx[OF jl(1)] .
    then have ya: "y \<in> allkeys (ts ! j)"
      using fst_entries_allkeys[of "ts ! j"] by (simp only: set_map) (rule subsetD)
    have il: "i < length ks" using ij(1) jl(1) len by simp
    have jk: "j \<le> length ks" using jl(1) len by simp
    have "x < ks ! i" using Nd.prems(1) le_refl il xa by (rule ordered_below)
    also have "ks ! i \<le> y" using Nd.prems(1) ij(1) jk ya by (rule ordered_above)
    finally show "x < y" .
  qed
  have "sorted_wrt (<) (concat xss)" using 1 2 by (subst sorted_wrt_concat_map) blast
  moreover have "map fst (entries (Nd a ks ts)) = concat xss"
    by (simp add: xss_def map_concat comp_def)
  ultimately show ?case by (simp only:)
qed

lemma entries_distinct:
  assumes "ordered t" "counts lo mn mx t"
  shows "distinct (map fst (entries t))"
  using entries_sorted[OF assms] by (rule strict_sorted_distinct)

lemma map_of_absent: "k \<notin> fst ` set xs \<Longrightarrow> map_of xs k = None"
  by (simp add: map_of_eq_None_iff)

lemma search_refine:
  fixes s :: "('k::linorder, 'v) BPlusTree"
  assumes "rep (heap s) mx par t" "ordered t" "counts lo mn mx t"
  shows "\<exists>leaf n. findLeaf_loop s (addr_of t) k = Some leaf \<and> heap s leaf = Some n \<and>
           findValue n k = Some (map_of (entries t) k)"
  using assms
proof (induction t arbitrary: par lo)
  case (Lf a ks vs)
  obtain n where n: "heap s a = Some n" "isLeaf n" "keys n = ks" "vals n = vs"
    using Lf.prems(1) by (rule rep_LfD)
  have "findValue n k = Some (map_of (zip ks vs) k)"
    using findValue_map_of[of n k] n Lf.prems(3) by simp
  then show ?case using findLeaf_loop_Lf[OF n(1,2)] n(1) by simp
next
  case (Nd a ks ts)
  obtain n where n: "heap s a = Some n" "\<not> isLeaf n" "keys n = ks" "children n = map addr_of ts"
    and reps0: "\<forall>t\<in>set ts. rep (heap s) mx (Some a) t"
    using Nd.prems(1) by (auto split: option.splits)
  define i where "i = findChildIndex_loop ks k"
  have len: "length ts = Suc (length ks)" using Nd.prems(3) by simp
  have il: "i < length ts"
    using findChildIndex_loop_le[of ks k] len by (auto simp: i_def)
  have mem: "ts ! i \<in> set ts" using il by simp
  have find: "findLeaf_loop s a k = findLeaf_loop s (addr_of (ts ! i)) k"
    using n(1-4) i_def il by (rule findLeaf_loop_Nd)
  have "\<exists>leaf n. findLeaf_loop s (addr_of (ts ! i)) k = Some leaf \<and> heap s leaf = Some n \<and>
           findValue n k = Some (map_of (entries (ts ! i)) k)"
  proof (rule Nd.IH[OF mem])
    show "rep (heap s) mx (Some a) (ts ! i)" using mem reps0 by blast
    show "ordered (ts ! i)" using mem Nd.prems(2) by simp
    show "counts mn mn mx (ts ! i)" using mem Nd.prems(3) by simp
  qed
  moreover have "map_of (entries (Nd a ks ts)) k = map_of (entries (ts ! i)) k"
  proof -
    note kn = key_not_in_siblings[OF Nd.prems(2) len i_def]
    have "entries (Nd a ks ts) = concat (map entries (take i ts)) @ entries (ts ! i) @ concat (map entries (drop (Suc i) ts))"
      using concat_map_take_drop[OF il, of entries] by simp
    then show ?thesis
      using map_of_absent[OF kn(1)] map_of_absent[OF kn(2)]
      by (simp add: map_add_def split: option.splits)
  qed
  ultimately show ?case using find by simp
qed

lemma search_correct:
  assumes "tree_inv s t"
  shows "search s k = Some (map_of (entries t) k)"
proof -
  have rt: "root s = Some (addr_of t)" and rp: "rep (heap s) (maxKeys s) None t"
    and o: "ordered t" and c: "counts 1 (minKeys s) (maxKeys s) t"
    using assms by (simp_all add: tree_inv_def)
  from search_refine[OF rp o c, of k] show ?thesis
    by (auto simp: search_def findLeaf_def rt)
qed

lemma search_empty: "root s = None \<Longrightarrow> search s k = Some None"
  by (simp add: search_def)

lemma map_of_upd_set:
  assumes "distinct (map fst xs)" "distinct (map fst ys)" "set ys = upd_set k v (set xs)"
  shows "map_of ys k' = (if k' = k then Some v else map_of xs k')"
proof (cases "k' = k")
  case True
  have "(k, v) \<in> set ys" unfolding assms(3) upd_set_def by (rule insertI1)
  then have "map_of ys k = Some v" using assms(2) by (rule map_of_is_SomeI[rotated])
  then show ?thesis using True by simp
next
  case False
  have mem: "(k', w) \<in> set ys \<longleftrightarrow> (k', w) \<in> set xs" for w
    unfolding assms(3) upd_set_def using False by simp
  have eq: "map_of ys k' = Some w \<longleftrightarrow> map_of xs k' = Some w" for w
  proof -
    have "map_of ys k' = Some w \<longleftrightarrow> (k', w) \<in> set ys" using assms(2) by (rule map_of_eq_Some_iff)
    also have "\<dots> \<longleftrightarrow> (k', w) \<in> set xs" by (rule mem)
    also have "\<dots> \<longleftrightarrow> map_of xs k' = Some w" using assms(1) by (rule map_of_eq_Some_iff[symmetric])
    finally show ?thesis .
  qed
  have "map_of ys k' = map_of xs k'"
  proof (cases "map_of xs k'")
    case None
    have "map_of ys k' = None"
    proof (cases "map_of ys k'")
      case (Some w)
      then have "map_of xs k' = Some w" by (rule eq[THEN iffD1])
      then show ?thesis using None by simp
    qed
    then show ?thesis using None by simp
  next
    case (Some w)
    then have "map_of ys k' = Some w" by (rule eq[THEN iffD2])
    then show ?thesis using Some by simp
  qed
  then show ?thesis using False by simp
qed

lemma tree_ins_entries:
  assumes "ordered t" "counts lo mn mx t" "1 \<le> mx"
  shows "set (entries (fst (tree_ins mx f k v t))) = upd_set k v (set (entries t))"
proof -
  obtain u f1 where u: "ins mx f k v t = (u, f1)" by (cases "ins mx f k v t")
  have e: "set (up_entries u) = upd_set k v (set (entries t))"
    using ins_entries[OF assms, of f k v] unfolding u fst_conv .
  show ?thesis
  proof (cases u)
    case (TI t')
    then show ?thesis using e u by (simp add: tree_ins_def up_entries_def)
  next
    case (UpI l sep r)
    then show ?thesis using e u by (simp add: tree_ins_def up_entries_def)
  qed
qed

lemma bpt_insert_search:
  fixes s :: "('k::linorder, 'v) BPlusTree"
  assumes "inv s"
  shows "\<exists>s'. bpt_insert s k v = Some s' \<and> inv s' \<and>
           (\<forall>k'. search s' k' = (if k' = k then Some (Some v) else search s k'))"
proof (cases "root s")
  case None
  then have p: "params_ok s" using assms by (simp add: inv_def)
  obtain s' where s': "bpt_insert s k v = Some s'" "tree_inv s' (Lf (fresh s) [k] [v])"
    using bpt_insert_empty_inv[OF None p, of k v] by blast
  have "\<forall>k'. search s' k' = (if k' = k then Some (Some v) else search s k')"
    using search_correct[OF s'(2)] search_empty[OF None] by simp
  then show ?thesis using s' inv_I by blast
next
  case (Some r)
  then obtain t where t: "tree_inv s t" using assms by (auto simp: inv_def)
  obtain s' where s': "bpt_insert s k v = Some s'"
    "tree_inv s' (fst (tree_ins (maxKeys s) (fresh s) k v t))" "maxKeys s' = maxKeys s" "minKeys s' = minKeys s"
    using bpt_insert_refine[OF t, of k v] by blast
  define t' where "t' = fst (tree_ins (maxKeys s) (fresh s) k v t)"
  have o: "ordered t" and c: "counts 1 (minKeys s) (maxKeys s) t" and p: "params_ok s"
    using t by (simp_all add: tree_inv_def)
  have o': "ordered t'" and c': "counts 1 (minKeys s) (maxKeys s) t'"
    using s'(2-4) by (simp_all add: tree_inv_def t'_def)
  have e: "set (entries t') = upd_set k v (set (entries t))"
    unfolding t'_def using o c params_ok_mn[OF p] by (intro tree_ins_entries) auto
  have "\<And>k'. map_of (entries t') k' = (if k' = k then Some v else map_of (entries t) k')"
    using entries_distinct[OF o c] entries_distinct[OF o' c'] e by (rule map_of_upd_set)
  then have "\<forall>k'. search s' k' = (if k' = k then Some (Some v) else search s k')"
    using search_correct[OF s'(2)] search_correct[OF t] by (simp add: t'_def)
  then show ?thesis using s' inv_I by blast
qed

section \<open>Examples evaluated\<close>

lemma tree_inv_ex: "tree_inv ex_tree ex_shape"
  by (simp add: tree_inv_def ex_tree_def ex_shape_def params_ok_def)

lemma search_ex: "search ex_tree 25 = Some None"
  by code_simp

lemma search_ex2: "search ex_tree 30 = Some (Some 3)"
  by code_simp

section \<open>The properties of the specification\<close>

text \<open>
  C6.  For every tree state and every key that is not in the tree (\<open>search\<close>
  answers not-found), \<open>remove\<close> returns false and leaves the tree unchanged:
  the same state, hence the same height, the same content for \<open>search\<close> and
  \<open>rangeQuery\<close>, and the same result of \<open>validate\<close>.
\<close>

theorem remove_absent_unchanged:
  assumes "search s k = Some None"
  shows "\<exists>s'. remove s k = Some (False, s') \<and> s' = s \<and> height s' = height s \<and>
           (\<forall>k'. search s' k' = search s k') \<and>
           (\<forall>a b. rangeQuery s' a b = rangeQuery s a b) \<and>
           (\<forall>fuel. validate fuel s' = validate fuel s)"
proof -
  have "remove s k = Some (False, s)"
  proof (cases "root s")
    case None
    then show ?thesis by (simp add: remove_def)
  next
    case (Some r)
    with assms obtain leaf n where l: "findLeaf s k = Some leaf" and n: "heap s leaf = Some n"
      and fv: "findValue n k = Some None"
      by (auto simp: search_def split: bind_splits)
    from fv have "index_of (keys n) k = None"
      by (auto simp: findValue_def split: option.splits bind_splits)
    with Some l n show ?thesis by (simp add: remove_def)
  qed
  then show ?thesis by simp
qed

theorem remove_absent_unchanged_witness:
  "search ex_tree 25 = Some None \<and> remove ex_tree 25 = Some (False, ex_tree)"
  using remove_absent_unchanged [of ex_tree 25] search_ex by simp


end
